theory Spec2Isabelle
  imports Complex_Main "HOL-Library.Word" "HOL-Library.AList"
begin

section \<open>The loop-level IR read by the GPU binding rule\<close>

text \<open>
  The ways in which a C++ call of this translation unit can end without a value:
  a glog \<open>CHECK\<close> that aborts, a lambda whose control reaches its closing brace
  without a \<open>return\<close> statement, and an index beyond the end of a \<open>std::vector\<close>.
\<close>

datatype fault = CheckFailed | NoReturnValue | OutOfRange

datatype ForType = Serial | Unrolled | Vectorized | Parallel | Default

text \<open>\<open>ir::_Var_\<close>: the two fields that \<open>IsSpatialLoop\<close> reads.\<close>

record Var =
  name :: string
  is_reduce_axis :: bool

text \<open>
  \<open>ir::Expr\<close>, restricted to the node kinds that auto_bind.cc distinguishes with
  \<open>As<...>()\<close>. Every other node kind is \<open>Other\<close> with its operands. A \<open>For\<close> node
  carries \<open>for_type()\<close>, its hardware binding (\<open>None\<close> when the loop is not bound,
  otherwise the axis name given to \<open>Bind\<close>), \<open>loop_var\<close>, \<open>extent\<close> and \<open>body\<close>.
  The extent is the integer that \<open>extent.as_int32()\<close> reads (line 89): loop extents
  are integer immediates.
\<close>

datatype Expr =
    VarRef Var
  | IntImm int
  | For ForType "string option" Var int Expr
  | Block "Expr list"
  | ScheduleBlockRealize "Expr list" Expr
  | ScheduleBlock "Var list" string Expr
  | Other "Expr list"

text \<open>
  Modelled from the spec: \<open>ForBase::is_binded\<close> and \<open>ForBase::is_gpu_thread_binded\<close>
  are declared in ir.h, which is not among the sources. The spec speaks of a loop
  "already bound to a hardware dimension" and of one that "already carries a
  thread-dimension binding".
\<close>

definition is_binded :: "string option \<Rightarrow> bool" where
  "is_binded b = (b \<noteq> None)"

definition is_gpu_thread_binded :: "string option \<Rightarrow> bool" where
  "is_gpu_thread_binded b = (case b of None \<Rightarrow> False | Some axis \<Rightarrow> take 9 axis = ''threadIdx'')"

text \<open>
  Modelled from the spec: \<open>ir::CollectIRNodesWithoutTensor\<close> lives in
  collect_ir_nodes.h, which is not among the sources. It walks the whole tree under
  an expression, the expression itself included, and keeps every node the teller
  accepts. \<open>nodes\<close> is that walk; the teller is run on every node, so a teller call
  that ends without a value ends the collection without one.
\<close>

fun nodes :: "Expr \<Rightarrow> Expr list" where
  "nodes (VarRef v) = [VarRef v]"
| "nodes (IntImm n) = [IntImm n]"
| "nodes (For ft b lv ext body) = For ft b lv ext body # IntImm ext # nodes body"
| "nodes (Block stmts) = Block stmts # concat (map nodes stmts)"
| "nodes (ScheduleBlockRealize vals sb) =
     ScheduleBlockRealize vals sb # concat (map nodes vals) @ nodes sb"
| "nodes (ScheduleBlock ivs nm body) = ScheduleBlock ivs nm body # nodes body"
| "nodes (Other es) = Other es # concat (map nodes es)"

fun collect :: "(Expr \<Rightarrow> fault + bool) \<Rightarrow> Expr list \<Rightarrow> fault + Expr list" where
  "collect teller [] = Inr []"
| "collect teller (x # xs) =
     (case teller x of
        Inl f \<Rightarrow> Inl f
      | Inr keep \<Rightarrow>
          (case collect teller xs of
             Inl f \<Rightarrow> Inl f
           | Inr r \<Rightarrow> Inr (if keep then x # r else r)))"

definition CollectIRNodesWithoutTensor :: "Expr \<Rightarrow> (Expr \<Rightarrow> fault + bool) \<Rightarrow> fault + Expr list" where
  "CollectIRNodesWithoutTensor e teller = collect teller (nodes e)"

section \<open>auto\_bind.cc: the loop analysis\<close>

text \<open>
  The inner lambda of \<open>IsSpatialLoop\<close> (lines 44-50). \<open>same_as\<close> is pointer
  identity, and the same node has the same name, so the disjunction is the
  comparison of the names.
\<close>

definition uses_loop_var :: "Var \<Rightarrow> Expr \<Rightarrow> fault + bool" where
  "uses_loop_var loop_var x =
     (case x of VarRef v \<Rightarrow> Inr (name v = name loop_var) | _ \<Rightarrow> Inr False)"

text \<open>
  The \<open>for\<close> loop of the outer lambda (lines 40-53), from index \<open>i\<close> on, over the
  remaining iteration variables and their bindings. When the loop runs out, control
  reaches the closing brace of the lambda on line 54: there is no \<open>return\<close> there.
\<close>

fun reduce_axis_scan :: "Var \<Rightarrow> Var list \<Rightarrow> Expr list \<Rightarrow> fault + bool" where
  "reduce_axis_scan loop_var (iter_var # ivs) (binding # bs) =
     (if is_reduce_axis iter_var \<or> take 6 (name iter_var) = ''reduce'' then
        (case CollectIRNodesWithoutTensor binding (uses_loop_var loop_var) of
           Inl f \<Rightarrow> Inl f
         | Inr used_exprs \<Rightarrow>
             if used_exprs \<noteq> [] then Inr True
             else reduce_axis_scan loop_var ivs bs)
      else reduce_axis_scan loop_var ivs bs)"
| "reduce_axis_scan loop_var _ _ = Inl NoReturnValue"

text \<open>The outer lambda of \<open>IsSpatialLoop\<close> (lines 33-54).\<close>

definition used_for_reduce_axis_teller :: "Var \<Rightarrow> Expr \<Rightarrow> fault + bool" where
  "used_for_reduce_axis_teller loop_var x =
     (case x of
        ScheduleBlockRealize iter_values schedule_block \<Rightarrow>
          (case schedule_block of
             ScheduleBlock iter_vars nm body \<Rightarrow>
               if length iter_values \<noteq> length iter_vars then Inl CheckFailed
               else reduce_axis_scan loop_var iter_vars iter_values
           | _ \<Rightarrow> Inl CheckFailed)
      | _ \<Rightarrow> Inr False)"

text \<open>\<open>IsSpatialLoop\<close> on the fields of the \<open>For\<close> node it is given.\<close>

definition IsSpatialLoop :: "ForType \<Rightarrow> Var \<Rightarrow> Expr \<Rightarrow> fault + bool" where
  "IsSpatialLoop ft loop_var body =
     (if ft \<noteq> Serial then Inr False
      else
        (case CollectIRNodesWithoutTensor body (used_for_reduce_axis_teller loop_var) of
           Inl f \<Rightarrow> Inl f
         | Inr used_for_reduce_axis \<Rightarrow> Inr (used_for_reduce_axis = [])))"

text \<open>
  \<open>CountLoopCanBinded\<close>: the \<open>while\<close> loop with its counter, on the expression
  whose \<open>As<ir::For>()\<close> is the next \<open>for_node\<close>; a null pointer (any node that is not
  a \<open>For\<close>, or \<open>None\<close> for the caller's pointer) ends the loop.
\<close>

fun count_loop :: "nat \<Rightarrow> Expr \<Rightarrow> fault + nat" where
  "count_loop cnt (For ft b lv ext body) =
     (if is_binded b then Inr cnt
      else
        (case IsSpatialLoop ft lv body of
           Inl f \<Rightarrow> Inl f
         | Inr False \<Rightarrow> Inr cnt
         | Inr True \<Rightarrow>
             (case body of
                Block [s] \<Rightarrow> count_loop (cnt + 1) s
              | Block _ \<Rightarrow> Inr (cnt + 1)
              | _ \<Rightarrow> Inl CheckFailed)))"
| "count_loop cnt _ = Inr cnt"

definition CountLoopCanBinded :: "Expr option \<Rightarrow> fault + nat" where
  "CountLoopCanBinded for_node = (case for_node of None \<Rightarrow> Inr 0 | Some e \<Rightarrow> count_loop 0 e)"

section \<open>The schedule object\<close>

text \<open>
  Modelled from the spec: \<open>ir::IRSchedule\<close> and its primitives (ir_schedule.h) are
  not among the sources; the spec gives their signatures (\<open>Fuse(loops) -> loop\<close>,
  \<open>Split(loop, factors) -> loops\<close>, \<open>Reorder(loops)\<close>, \<open>Bind(loop, dimension_name)\<close>,
  \<open>GetLoops\<close>, \<open>GetAllBlocks\<close>, \<open>GetBlock\<close>) and, in the binding algorithm, the extents
  they produce. A schedule holds, for every schedule block, the loops around it
  (outermost first) and the statements of the innermost loop body. An \<open>Expr\<close> handle
  of the C++ code is a pointer into the IR of one schedule: a block handle is the
  block's name, a loop handle is the block's name with the identity of the loop,
  which stays the same while the loop is moved or bound. Every primitive call is
  appended to \<open>calls\<close>.
\<close>

record Loop =
  loop_id :: nat
  for_type :: ForType
  bind_info :: "string option"
  loop_var :: Var
  extent :: int

record LoopNest =
  loops :: "Loop list"
  stmts :: "Expr list"

type_synonym BlockHandle = string
type_synonym LoopHandle = "string \<times> nat"

datatype Call =
    FuseCall "LoopHandle list" LoopHandle
  | SplitCall LoopHandle "int list" "LoopHandle list"
  | ReorderCall "LoopHandle list"
  | BindCall LoopHandle string

record IRSchedule =
  nests :: "(string \<times> LoopNest) list"
  next_id :: nat
  calls :: "Call list"

text \<open>The statements of a loop body: the next loop of the nest, or the innermost statements.\<close>

fun nest_body :: "Loop list \<Rightarrow> Expr list \<Rightarrow> Expr list" where
  "nest_body [] ss = ss"
| "nest_body (h # hs) ss =
     [For (for_type h) (bind_info h) (loop_var h) (extent h) (Block (nest_body hs ss))]"

definition set_nest :: "string \<Rightarrow> LoopNest \<Rightarrow> (string \<times> LoopNest) list \<Rightarrow> (string \<times> LoopNest) list" where
  "set_nest blk n ns = map (\<lambda>e. if fst e = blk then (blk, n) else e) ns"

text \<open>The fields of the \<open>For\<close> node a loop handle points to, and the node itself.\<close>

definition loop_at :: "IRSchedule \<Rightarrow> LoopHandle \<Rightarrow> Loop option" where
  "loop_at sch h =
     (case map_of (nests sch) (fst h) of
        None \<Rightarrow> None
      | Some n \<Rightarrow> find (\<lambda>l. loop_id l = snd h) (loops n))"

definition for_node :: "Loop \<Rightarrow> Loop list \<Rightarrow> Expr list \<Rightarrow> Expr" where
  "for_node h hs ss =
     For (for_type h) (bind_info h) (loop_var h) (extent h) (Block (nest_body hs ss))"

definition As_For :: "IRSchedule \<Rightarrow> LoopHandle \<Rightarrow> Expr option" where
  "As_For sch h =
     (case map_of (nests sch) (fst h) of
        None \<Rightarrow> None
      | Some n \<Rightarrow>
          (case dropWhile (\<lambda>l. loop_id l \<noteq> snd h) (loops n) of
             [] \<Rightarrow> None
           | l # inner \<Rightarrow> Some (for_node l inner (stmts n))))"

definition GetAllBlocks :: "IRSchedule \<Rightarrow> BlockHandle list" where
  "GetAllBlocks sch = map fst (nests sch)"

definition GetBlock :: "IRSchedule \<Rightarrow> string \<Rightarrow> fault + BlockHandle" where
  "GetBlock sch block_name =
     (if block_name \<in> set (map fst (nests sch)) then Inr block_name else Inl CheckFailed)"

definition GetLoops :: "IRSchedule \<Rightarrow> BlockHandle \<Rightarrow> fault + LoopHandle list" where
  "GetLoops sch blk =
     (case map_of (nests sch) blk of
        None \<Rightarrow> Inl CheckFailed
      | Some n \<Rightarrow> Inr (map (\<lambda>l. (blk, loop_id l)) (loops n)))"

text \<open>
  \<open>Fuse\<close>: the handles must be consecutive loops of one nest, in nest order, and at
  least one. The fused loop is a new serial, unbound loop whose extent is the product
  of the fused extents (the "total iteration extent"). The spec does not say how the
  new loop variable is named; here the names are joined.
\<close>

definition fused_var :: "Loop list \<Rightarrow> Var" where
  "fused_var ls =
     \<lparr>name = concat (map (\<lambda>l. name (loop_var l) @ ''_'') ls) @ ''fused'', is_reduce_axis = False\<rparr>"

definition Fuse :: "IRSchedule \<Rightarrow> LoopHandle list \<Rightarrow> fault + (LoopHandle \<times> IRSchedule)" where
  "Fuse sch hs =
     (case hs of
        [] \<Rightarrow> Inl CheckFailed
      | h # _ \<Rightarrow>
          (case map_of (nests sch) (fst h) of
             None \<Rightarrow> Inl CheckFailed
           | Some n \<Rightarrow>
               let outer = takeWhile (\<lambda>l. loop_id l \<noteq> snd h) (loops n);
                   rest = dropWhile (\<lambda>l. loop_id l \<noteq> snd h) (loops n);
                   seg = take (length hs) rest;
                   fused = \<lparr>loop_id = next_id sch, for_type = Serial, bind_info = None,
                            loop_var = fused_var seg, extent = prod_list (map extent seg)\<rparr>
               in if map (\<lambda>l. (fst h, loop_id l)) seg \<noteq> hs then Inl CheckFailed
                  else Inr ((fst h, next_id sch),
                            sch\<lparr>nests := set_nest (fst h)
                                   (n\<lparr>loops := outer @ fused # drop (length hs) rest\<rparr>) (nests sch),
                                next_id := next_id sch + 1,
                                calls := calls sch @ [FuseCall hs (fst h, next_id sch)]\<rparr>)))"

text \<open>
  \<open>Split\<close>: one factor may be \<open>-1\<close>; it stands for the extent the other factors
  leave, rounded up. Every other factor has to be positive. The loop is replaced, in
  its place, by one new serial, unbound loop per factor, outermost first.
\<close>

definition infer_factors :: "int \<Rightarrow> int list \<Rightarrow> fault + int list" where
  "infer_factors e factors =
     (let given = filter (\<lambda>f. f \<noteq> - 1) factors; p = prod_list given
      in if factors = [] \<or> (\<exists>f \<in> set given. f \<le> 0) \<or> length given + 1 < length factors
         then Inl CheckFailed
         else Inr (map (\<lambda>f. if f = - 1 then (e + p - 1) div p else f) factors))"

definition split_var :: "Var \<Rightarrow> nat \<Rightarrow> Var" where
  "split_var v k = \<lparr>name = name v @ ''_'' @ replicate (Suc k) (CHR ''s''), is_reduce_axis = False\<rparr>"

definition split_loops :: "nat \<Rightarrow> Var \<Rightarrow> int list \<Rightarrow> Loop list" where
  "split_loops first v es =
     map (\<lambda>(k, e). \<lparr>loop_id = first + k, for_type = Serial, bind_info = None,
                      loop_var = split_var v k, extent = e\<rparr>)
         (zip [0 ..< length es] es)"

definition Split :: "IRSchedule \<Rightarrow> LoopHandle \<Rightarrow> int list \<Rightarrow> fault + (LoopHandle list \<times> IRSchedule)" where
  "Split sch h factors =
     (case map_of (nests sch) (fst h) of
        None \<Rightarrow> Inl CheckFailed
      | Some n \<Rightarrow>
          (case dropWhile (\<lambda>l. loop_id l \<noteq> snd h) (loops n) of
             [] \<Rightarrow> Inl CheckFailed
           | l # inner \<Rightarrow>
               (case infer_factors (extent l) factors of
                  Inl f \<Rightarrow> Inl f
                | Inr es \<Rightarrow>
                    let new = split_loops (next_id sch) (loop_var l) es;
                        outs = map (\<lambda>l. (fst h, loop_id l)) new
                    in Inr (outs,
                            sch\<lparr>nests := set_nest (fst h)
                                   (n\<lparr>loops := takeWhile (\<lambda>l. loop_id l \<noteq> snd h) (loops n) @ new @ inner\<rparr>)
                                   (nests sch),
                                next_id := next_id sch + length es,
                                calls := calls sch @ [SplitCall h factors outs]\<rparr>))))"

text \<open>
  \<open>Reorder\<close>: the named loops of one nest keep the places they occupy together and
  take them in the order of the handles. \<open>Bind\<close>: the loop gets the hardware axis.
\<close>

fun refill :: "nat list \<Rightarrow> Loop list \<Rightarrow> Loop list \<Rightarrow> Loop list" where
  "refill ids [] new = []"
| "refill ids (l # ls) new =
     (if loop_id l \<in> set ids then
        (case new of [] \<Rightarrow> l # refill ids ls [] | x # xs \<Rightarrow> x # refill ids ls xs)
      else l # refill ids ls new)"

definition Reorder :: "IRSchedule \<Rightarrow> LoopHandle list \<Rightarrow> fault + IRSchedule" where
  "Reorder sch hs =
     (case hs of
        [] \<Rightarrow> Inl CheckFailed
      | h # _ \<Rightarrow>
          (case map_of (nests sch) (fst h) of
             None \<Rightarrow> Inl CheckFailed
           | Some n \<Rightarrow>
               if (\<exists>x \<in> set hs. fst x \<noteq> fst h \<or> find (\<lambda>l. loop_id l = snd x) (loops n) = None)
                  \<or> \<not> distinct (map snd hs)
               then Inl CheckFailed
               else Inr (sch\<lparr>nests := set_nest (fst h)
                              (n\<lparr>loops := refill (map snd hs) (loops n)
                                    (concat (map (\<lambda>x. case find (\<lambda>l. loop_id l = snd x) (loops n) of
                                                         None \<Rightarrow> [] | Some l \<Rightarrow> [l]) hs))\<rparr>)
                              (nests sch),
                            calls := calls sch @ [ReorderCall hs]\<rparr>)))"

definition Bind :: "IRSchedule \<Rightarrow> LoopHandle \<Rightarrow> string \<Rightarrow> fault + IRSchedule" where
  "Bind sch h axis =
     (case map_of (nests sch) (fst h) of
        None \<Rightarrow> Inl CheckFailed
      | Some n \<Rightarrow>
          if find (\<lambda>l. loop_id l = snd h) (loops n) = None then Inl CheckFailed
          else Inr (sch\<lparr>nests := set_nest (fst h)
                         (n\<lparr>loops := map (\<lambda>l. if loop_id l = snd h then l\<lparr>bind_info := Some axis\<rparr> else l)
                                          (loops n)\<rparr>)
                         (nests sch),
                       calls := calls sch @ [BindCall h axis]\<rparr>))"

section \<open>auto\_bind.cc: the binding algorithm\<close>

definition kMaxThreadBlocks :: int where
  "kMaxThreadBlocks = 256"

text \<open>
  \<open>BindGPUIndex\<close> (lines 76-112). The schedule behind the pointer is passed in and
  returned. \<open>all_loops[num_loops_to_bind].As<ir::For>()\<close> is a null pointer when the
  handle is not a loop of the schedule. The count of loops is a natural number, as
  \<open>CountLoopCanBinded\<close> returns it. The extent of a loop is the value that
  \<open>as_int32()\<close> reads. The product \<open>max_blocks_num * max_threads_num\<close> of line 100
  is a product of two \<open>int\<close>s, 32 bits wide: \<open>int32_mul\<close> is that product as the
  compiled code computes it, wrapping around in two's complement.
\<close>

definition int32_mul :: "int \<Rightarrow> int \<Rightarrow> int" where
  "int32_mul a b = sint (word_of_int a * word_of_int b :: 32 word)"

definition bind_splits2 :: "IRSchedule \<Rightarrow> LoopHandle list \<Rightarrow> fault + IRSchedule" where
  "bind_splits2 sch splits =
     (if length splits \<noteq> 2 then Inl CheckFailed
      else
        (case Bind sch (splits ! 0) ''blockIdx.x'' of
           Inl f \<Rightarrow> Inl f
         | Inr s1 \<Rightarrow> Bind s1 (splits ! 1) ''threadIdx.x''))"

definition bind_splits3 :: "IRSchedule \<Rightarrow> LoopHandle list \<Rightarrow> fault + IRSchedule" where
  "bind_splits3 sch splits =
     (if length splits \<noteq> 3 then Inl CheckFailed
      else
        (case Reorder sch [splits ! 1, splits ! 2, splits ! 0] of
           Inl f \<Rightarrow> Inl f
         | Inr s1 \<Rightarrow>
             (case Bind s1 (splits ! 1) ''blockIdx.x'' of
                Inl f \<Rightarrow> Inl f
              | Inr s2 \<Rightarrow> Bind s2 (splits ! 2) ''threadIdx.x'')))"

definition BindGPUIndex :: "IRSchedule \<Rightarrow> BlockHandle \<Rightarrow> nat \<Rightarrow> int \<Rightarrow> int \<Rightarrow> fault + IRSchedule" where
  "BindGPUIndex ir_schedule applied_block num_loops_to_bind max_blocks_num max_threads_num =
     (case GetLoops ir_schedule applied_block of
        Inl f \<Rightarrow> Inl f
      | Inr all_loops \<Rightarrow>
          if \<not> num_loops_to_bind \<le> length all_loops then Inl CheckFailed
          else
            (case (if num_loops_to_bind < length all_loops
                   then (case loop_at ir_schedule (all_loops ! num_loops_to_bind) of
                           None \<Rightarrow> Inl OutOfRange
                         | Some l \<Rightarrow> Inr (is_gpu_thread_binded (bind_info l)))
                   else Inr False) of
               Inl f \<Rightarrow> Inl f
             | Inr gpu_thread_has_binded \<Rightarrow>
                 (case Fuse ir_schedule (take num_loops_to_bind all_loops) of
                    Inl f \<Rightarrow> Inl f
                  | Inr (fused_loop, s1) \<Rightarrow>
                      (case loop_at s1 fused_loop of
                         None \<Rightarrow> Inl OutOfRange
                       | Some fl \<Rightarrow>
                           if gpu_thread_has_binded then Bind s1 fused_loop ''blockIdx.x''
                           else if extent fl \<le> max_threads_num then Bind s1 fused_loop ''threadIdx.x''
                           else if extent fl \<le> int32_mul max_blocks_num max_threads_num then
                             (case Split s1 fused_loop [- 1, max_threads_num] of
                                Inl f \<Rightarrow> Inl f
                              | Inr (splits, s2) \<Rightarrow> bind_splits2 s2 splits)
                           else
                             (case Split s1 fused_loop [- 1, max_blocks_num, max_threads_num] of
                                Inl f \<Rightarrow> Inl f
                              | Inr (splits, s2) \<Rightarrow> bind_splits3 s2 splits)))))"

section \<open>What the claims speak about\<close>

text \<open>
  A nest is well formed in a schedule when its loops have distinct identities, all
  issued before \<open>next_id\<close>. \<open>handles\<close> is what \<open>GetLoops\<close> returns for it.
  \<open>thread_claimed\<close>: the loop right after the first \<open>k\<close> loops carries a thread
  binding. \<open>fused_extent\<close>: the total iteration extent of the first \<open>k\<close> loops.
\<close>

definition wf_nest :: "IRSchedule \<Rightarrow> LoopNest \<Rightarrow> bool" where
  "wf_nest sch n =
     (distinct (map loop_id (loops n)) \<and> list_all (\<lambda>l. loop_id l < next_id sch) (loops n))"

definition handles :: "string \<Rightarrow> Loop list \<Rightarrow> LoopHandle list" where
  "handles blk ls = map (\<lambda>l. (blk, loop_id l)) ls"

definition thread_claimed :: "LoopNest \<Rightarrow> nat \<Rightarrow> bool" where
  "thread_claimed n k = (k < length (loops n) \<and> is_gpu_thread_binded (bind_info (loops n ! k)))"

definition fused_extent :: "LoopNest \<Rightarrow> nat \<Rightarrow> int" where
  "fused_extent n k = prod_list (map extent (take k (loops n)))"

definition fused_loop_of :: "IRSchedule \<Rightarrow> LoopNest \<Rightarrow> nat \<Rightarrow> Loop" where
  "fused_loop_of sch n k =
     \<lparr>loop_id = next_id sch, for_type = Serial, bind_info = None,
      loop_var = fused_var (take k (loops n)), extent = fused_extent n k\<rparr>"

text \<open>The loops around a block after a run, outermost first (empty after a fault).\<close>

definition loops_after :: "fault + IRSchedule \<Rightarrow> string \<Rightarrow> Loop list" where
  "loops_after r blk =
     (case r of
        Inl f \<Rightarrow> []
      | Inr s \<Rightarrow> (case map_of (nests s) blk of None \<Rightarrow> [] | Some n \<Rightarrow> loops n))"

definition calls_after :: "fault + IRSchedule \<Rightarrow> Call list" where
  "calls_after r = (case r of Inl f \<Rightarrow> [] | Inr s \<Rightarrow> calls s)"

definition returns :: "fault + 'a \<Rightarrow> bool" where
  "returns r = (case r of Inl f \<Rightarrow> False | Inr x \<Rightarrow> True)"

text \<open>
  The \<open>i\<close>-th loop that \<open>Split\<close> makes of the fused loop of the first \<open>k\<close> loops, with
  extent \<open>e\<close> and binding \<open>b\<close>. The fused loop has taken the identity \<open>next_id\<close>.
\<close>

definition split_loop :: "IRSchedule \<Rightarrow> LoopNest \<Rightarrow> nat \<Rightarrow> nat \<Rightarrow> int \<Rightarrow> string option \<Rightarrow> Loop" where
  "split_loop sch n k i e b =
     \<lparr>loop_id = next_id sch + 1 + i, for_type = Serial, bind_info = b,
      loop_var = split_var (fused_var (take k (loops n))) i, extent = e\<rparr>"

text \<open>
  A schedule with one block \<open>B\<close> under three serial loops \<open>i\<close>, \<open>j\<close>, \<open>k\<close> of extents
  \<open>a\<close>, \<open>b\<close> and 8; \<open>t\<close> is the binding of \<open>k\<close>.
\<close>

definition example_loop :: "nat \<Rightarrow> string \<Rightarrow> int \<Rightarrow> string option \<Rightarrow> Loop" where
  "example_loop i nm e b =
     \<lparr>loop_id = i, for_type = Serial, bind_info = b,
      loop_var = \<lparr>name = nm, is_reduce_axis = False\<rparr>, extent = e\<rparr>"

definition example_nest :: "int \<Rightarrow> int \<Rightarrow> string option \<Rightarrow> LoopNest" where
  "example_nest a b t =
     \<lparr>loops = [example_loop 0 ''i'' a None, example_loop 1 ''j'' b None, example_loop 2 ''k'' 8 t],
      stmts = []\<rparr>"

definition example_schedule :: "int \<Rightarrow> int \<Rightarrow> string option \<Rightarrow> IRSchedule" where
  "example_schedule a b t = \<lparr>nests = [(''B'', example_nest a b t)], next_id = 3, calls = []\<rparr>"

definition loop_summary :: "Loop \<Rightarrow> nat \<times> string option \<times> int" where
  "loop_summary l = (loop_id l, bind_info l, extent l)"

section \<open>schedule\_desc.h: the recorded trace\<close>

text \<open>
  An expression handle kept in a trace: a block or a loop of the schedule.
\<close>

datatype Handle = BlockRef BlockHandle | LoopRef LoopHandle

text \<open>
  Modelled from the spec: \<open>AttributeMap\<close> is declared in type_defs.h, which is not
  among the sources. The spec lists the variants of an attribute value: bool, int64,
  double, string, the sequences of these, an expression handle and a sequence of
  expression handles. A double is its 64 bits.
\<close>

datatype Attribute =
    BoolAttr bool
  | IntAttr "64 word"
  | DoubleAttr "64 word"
  | StringAttr string
  | IntsAttr "64 word list"
  | BoolsAttr "bool list"
  | DoublesAttr "64 word list"
  | StringsAttr "string list"
  | ExprAttr Handle
  | ExprsAttr "Handle list"

text \<open>
  \<open>ScheduleDesc::Step\<close> and \<open>ScheduleDesc\<close> as the header declares them. The hash maps
  of a step are association lists; the name table \<open>name2expr_\<close> is a map.
\<close>

record Step =
  step_type :: string
  inputs :: "(string \<times> string list) list"
  outputs :: "(string \<times> string list) list"
  attrs :: "(string \<times> Attribute) list"

record ScheduleDesc =
  steps :: "Step list"
  name2expr :: "string \<rightharpoonup> Handle"

section \<open>Search states\<close>

text \<open>
  Modelled from the spec: \<open>SearchState\<close> (search_state.h) is not among the sources.
  It is a shared pointer to an object that owns a schedule and its trace; the store
  holds the objects, a \<open>SearchState\<close> is an address in it. \<open>Copy()\<close> makes a new
  object with a deep clone of the schedule and a copy of the trace, and returns its
  address.
\<close>

record SearchStateObj =
  ir_schedule :: IRSchedule
  trace :: ScheduleDesc

type_synonym Store = "SearchStateObj list"
type_synonym SearchState = nat

definition Copy :: "Store \<Rightarrow> SearchState \<Rightarrow> fault + (SearchState \<times> Store)" where
  "Copy store state =
     (if state < length store then Inr (length store, store @ [store ! state])
      else Inl OutOfRange)"

section \<open>auto\_bind.cc: the rule\<close>

datatype RuleApplyType = kCannotApply | kApply | kApplyAndPruneOtherRules

text \<open>
  The members of \<open>AutoBind\<close> that the methods use. \<open>max_num_threads\<close> is what
  \<open>target_->max_num_threads()\<close> returns. \<open>ir_schedule_\<close> is a pointer to the caller's
  schedule: the schedule behind it is passed to \<open>Apply\<close> and returned.
\<close>

record AutoBind =
  applicable_schedule_blocks :: "BlockHandle list"
  num_applicable :: nat
  max_num_threads :: int

text \<open>
  \<open>CountLoopCanBinded(all_loops[0].As<ir::For>())\<close> on the loops of a block: the
  expression that \<open>Init\<close>, \<open>Apply\<close>, \<open>AnalyseApplyType\<close> and \<open>ApplyOnBlock\<close> share.
  \<open>all_loops[0]\<close> is not guarded: on an empty vector it reads out of range.
\<close>

definition count_first_loop :: "IRSchedule \<Rightarrow> LoopHandle list \<Rightarrow> fault + nat" where
  "count_first_loop sch all_loops =
     (case all_loops of
        [] \<Rightarrow> Inl OutOfRange
      | h # _ \<Rightarrow> CountLoopCanBinded (As_For sch h))"

text \<open>The \<open>for\<close> loop of \<open>Init\<close> over the blocks that are left, appending to the member.\<close>

fun collect_applicable :: "IRSchedule \<Rightarrow> BlockHandle list \<Rightarrow> BlockHandle list \<Rightarrow> fault + BlockHandle list" where
  "collect_applicable sch [] applicable = Inr applicable"
| "collect_applicable sch (block_realize # rest) applicable =
     (case GetLoops sch block_realize of
        Inl f \<Rightarrow> Inl f
      | Inr all_loops \<Rightarrow>
          (case count_first_loop sch all_loops of
             Inl f \<Rightarrow> Inl f
           | Inr cnt \<Rightarrow>
               collect_applicable sch rest
                 (if cnt > 0 then applicable @ [block_realize] else applicable)))"

definition Init :: "AutoBind \<Rightarrow> IRSchedule \<Rightarrow> fault + (RuleApplyType \<times> AutoBind)" where
  "Init rule sch =
     (case collect_applicable sch (GetAllBlocks sch) (applicable_schedule_blocks rule) of
        Inl f \<Rightarrow> Inl f
      | Inr blocks \<Rightarrow>
          Inr (if length blocks > 0 then kApplyAndPruneOtherRules else kCannotApply,
               rule\<lparr>applicable_schedule_blocks := blocks, num_applicable := length blocks\<rparr>))"

definition Apply :: "AutoBind \<Rightarrow> IRSchedule \<Rightarrow> int \<Rightarrow> fault + IRSchedule" where
  "Apply rule sch index =
     (if \<not> (0 \<le> index \<and> nat index < length (applicable_schedule_blocks rule)) then Inl CheckFailed
      else
        (let applied_block = applicable_schedule_blocks rule ! nat index
         in case GetLoops sch applied_block of
              Inl f \<Rightarrow> Inl f
            | Inr all_loops \<Rightarrow>
                (case count_first_loop sch all_loops of
                   Inl f \<Rightarrow> Inl f
                 | Inr cnt \<Rightarrow>
                     BindGPUIndex sch applied_block cnt kMaxThreadBlocks (max_num_threads rule))))"

definition AnalyseApplyType :: "AutoBind \<Rightarrow> Store \<Rightarrow> SearchState \<Rightarrow> string \<Rightarrow> fault + RuleApplyType" where
  "AnalyseApplyType rule store state block_name =
     (if \<not> state < length store then Inl OutOfRange
      else
        (case GetBlock (ir_schedule (store ! state)) block_name of
           Inl f \<Rightarrow> Inl f
         | Inr block_expr \<Rightarrow>
             (case GetLoops (ir_schedule (store ! state)) block_expr of
                Inl f \<Rightarrow> Inl f
              | Inr all_loops \<Rightarrow>
                  (case count_first_loop (ir_schedule (store ! state)) all_loops of
                     Inl f \<Rightarrow> Inl f
                   | Inr cnt \<Rightarrow>
                       Inr (if cnt > 0 then kApplyAndPruneOtherRules else kCannotApply)))))"

text \<open>
  \<open>ApplyOnBlock\<close> (lines 147-157): the block is looked up in the copy, its loops in
  the state that was passed, and \<open>BindGPUIndex\<close> works on the schedule of the copy.
\<close>

definition ApplyOnBlock :: "AutoBind \<Rightarrow> Store \<Rightarrow> SearchState \<Rightarrow> string \<Rightarrow> fault + (SearchState list \<times> Store)" where
  "ApplyOnBlock rule store state block_name =
     (case Copy store state of
        Inl f \<Rightarrow> Inl f
      | Inr (new_state, store1) \<Rightarrow>
          (case GetBlock (ir_schedule (store1 ! new_state)) block_name of
             Inl f \<Rightarrow> Inl f
           | Inr applied_block \<Rightarrow>
               (case GetLoops (ir_schedule (store1 ! state)) applied_block of
                  Inl f \<Rightarrow> Inl f
                | Inr all_loops \<Rightarrow>
                    (case count_first_loop (ir_schedule (store1 ! state)) all_loops of
                       Inl f \<Rightarrow> Inl f
                     | Inr cnt \<Rightarrow>
                         (case BindGPUIndex (ir_schedule (store1 ! new_state)) applied_block cnt
                                 kMaxThreadBlocks (max_num_threads rule) of
                            Inl f \<Rightarrow> Inl f
                          | Inr sch' \<Rightarrow>
                              Inr ([new_state],
                                   store1[new_state := (store1 ! new_state)\<lparr>ir_schedule := sch'\<rparr>]))))))"

section \<open>Examples and notions for the rule\<close>

text \<open>
  The count of bindable loops of a block, as the four methods compute it: \<open>GetLoops\<close>,
  then \<open>CountLoopCanBinded\<close> on the first loop.
\<close>

definition block_count :: "IRSchedule \<Rightarrow> BlockHandle \<Rightarrow> fault + nat" where
  "block_count sch blk =
     (case GetLoops sch blk of Inl f \<Rightarrow> Inl f | Inr all_loops \<Rightarrow> count_first_loop sch all_loops)"

definition positive_count :: "IRSchedule \<Rightarrow> BlockHandle \<Rightarrow> bool" where
  "positive_count sch blk = (case block_count sch blk of Inl f \<Rightarrow> False | Inr cnt \<Rightarrow> cnt > 0)"

text \<open>
  An elementwise block \<open>B\<close> under one serial loop \<open>i\<close>: its only iteration variable
  \<open>i0\<close> is bound to \<open>i\<close> and is not a reduction axis.
\<close>

definition elementwise_block :: Expr where
  "elementwise_block =
     ScheduleBlockRealize [VarRef \<lparr>name = ''i'', is_reduce_axis = False\<rparr>]
       (ScheduleBlock [\<lparr>name = ''i0'', is_reduce_axis = False\<rparr>] ''B'' (Other []))"

definition elementwise_loop :: Expr where
  "elementwise_loop =
     For Serial None \<lparr>name = ''i'', is_reduce_axis = False\<rparr> 32 (Block [elementwise_block])"

text \<open>
  A block realize with one binding for a schedule block without iteration variables:
  the \<open>CHECK_EQ\<close> of line 39 fails on it.
\<close>

definition malformed_block :: Expr where
  "malformed_block =
     ScheduleBlockRealize [VarRef \<lparr>name = ''i'', is_reduce_axis = False\<rparr>]
       (ScheduleBlock [] ''B'' (Other []))"

text \<open>
  A reduction block \<open>B\<close> under one serial loop \<open>k\<close>: its iteration variable
  \<open>reduce_k\<close> is a reduction axis bound to \<open>k\<close>.
\<close>

definition reduction_block :: Expr where
  "reduction_block =
     ScheduleBlockRealize [VarRef \<lparr>name = ''k'', is_reduce_axis = False\<rparr>]
       (ScheduleBlock [\<lparr>name = ''reduce_k'', is_reduce_axis = True\<rparr>] ''B'' (Other []))"

text \<open>A store with one search state: one block \<open>B\<close> under the given loops, an empty trace.\<close>

definition example_store :: "Loop list \<Rightarrow> Expr list \<Rightarrow> Store" where
  "example_store ls ss =
     [\<lparr>ir_schedule = \<lparr>nests = [(''B'', \<lparr>loops = ls, stmts = ss\<rparr>)], next_id = length ls, calls = []\<rparr>,
       trace = \<lparr>steps = [], name2expr = Map.empty\<rparr>\<rparr>]"

definition two_loops :: "Loop list" where
  "two_loops = [example_loop 0 ''i'' 32 None, example_loop 1 ''j'' 32 None]"

definition reduce_loop :: "Loop list" where
  "reduce_loop = [example_loop 0 ''k'' 32 None]"

definition example_rule :: AutoBind where
  "example_rule = \<lparr>applicable_schedule_blocks = [], num_applicable = 0, max_num_threads = 1024\<rparr>"

text \<open>
  What \<open>ApplyOnBlock\<close> makes of the state of \<open>example_store two_loops []\<close>: the two
  loops (1024 iterations) fused and bound to \<open>threadIdx.x\<close>.
\<close>

definition example_applied :: SearchStateObj where
  "example_applied =
     \<lparr>ir_schedule =
        \<lparr>nests = [(''B'', \<lparr>loops = [\<lparr>loop_id = 2, for_type = Serial, bind_info = Some ''threadIdx.x'',
                                       loop_var = \<lparr>name = ''i_j_fused'', is_reduce_axis = False\<rparr>,
                                       extent = 1024\<rparr>],
                            stmts = []\<rparr>)],
         next_id = 3,
         calls = [FuseCall [(''B'', 0), (''B'', 1)] (''B'', 2), BindCall (''B'', 2) ''threadIdx.x'']\<rparr>,
      trace = \<lparr>steps = [], name2expr = Map.empty\<rparr>\<rparr>"

section \<open>The serialized trace\<close>

text \<open>
  Modelled from the spec: \<open>ScheduleDesc::ToProto\<close> and the constructor from
  \<open>proto::ScheduleDesc\<close> are declared in the header, their bodies and
  schedule_desc.proto are not among the sources. The spec describes the serialized
  form as an ordered list of records, each with the operation kind, the input slots
  with the names they refer to, the attributes with their typed values and the
  output names; the name table is not part of it. \<open>ToProto\<close> writes the entries of
  each hash map one after the other; the constructor puts the entries it reads into
  an empty map, one by one, and starts with an empty name table.
\<close>

record StepProto =
  proto_type :: string
  proto_inputs :: "(string \<times> string list) list"
  proto_outputs :: "(string \<times> string list) list"
  proto_attrs :: "(string \<times> Attribute) list"

definition step_to_proto :: "Step \<Rightarrow> StepProto" where
  "step_to_proto s =
     \<lparr>proto_type = step_type s, proto_inputs = inputs s, proto_outputs = outputs s,
      proto_attrs = attrs s\<rparr>"

definition ToProto :: "ScheduleDesc \<Rightarrow> StepProto list" where
  "ToProto desc = map step_to_proto (steps desc)"

definition insert_entries :: "('k \<times> 'v) list \<Rightarrow> ('k \<times> 'v) list" where
  "insert_entries es = fold (\<lambda>e m. AList.update (fst e) (snd e) m) es []"

definition step_of_proto :: "StepProto \<Rightarrow> Step" where
  "step_of_proto p =
     \<lparr>step_type = proto_type p, inputs = insert_entries (proto_inputs p),
      outputs = insert_entries (proto_outputs p), attrs = insert_entries (proto_attrs p)\<rparr>"

definition FromProto :: "StepProto list \<Rightarrow> ScheduleDesc" where
  "FromProto desc_proto = \<lparr>steps = map step_of_proto desc_proto, name2expr = Map.empty\<rparr>"

text \<open>A hash map holds one entry for a key.\<close>

definition unique_keys :: "Step \<Rightarrow> bool" where
  "unique_keys s =
     (distinct (map fst (inputs s)) \<and> distinct (map fst (outputs s)) \<and> distinct (map fst (attrs s)))"

text \<open>A step whose attributes take every variant of an attribute value.\<close>

definition all_variants_step :: Step where
  "all_variants_step =
     \<lparr>step_type = ''Split'',
      inputs = [(''loop'', [''e0''])],
      outputs = [(''out'', [''e1'', ''e2''])],
      attrs = [(''a_bool'', BoolAttr True), (''a_int'', IntAttr 4), (''a_double'', DoubleAttr 1),
               (''a_string'', StringAttr ''B''), (''a_ints'', IntsAttr [4, - 1]),
               (''a_bools'', BoolsAttr [True, False]), (''a_doubles'', DoublesAttr [0, 1]),
               (''a_strings'', StringsAttr [''i'', ''j'']), (''a_expr'', ExprAttr (BlockRef ''B'')),
               (''a_exprs'', ExprsAttr [LoopRef (''B'', 0), LoopRef (''B'', 1)])]\<rparr>"

section \<open>Replay\<close>

text \<open>
  Modelled from the spec: \<open>ScheduleDesc::Replay\<close> and the step-kind registry are not
  among the sources (the header declares \<open>Replay\<close>, the test calls it). The spec's
  errors of a replay, with the fault of a primitive added.
\<close>

datatype ReplayError =
    UnknownOperationKind
  | ArityMismatch
  | DanglingInputReference
  | ReplayDivergence
  | AttributeTypeMismatch
  | PrimitiveFault fault

definition lift_fault :: "fault + 'a \<Rightarrow> ReplayError + 'a" where
  "lift_fault r = (case r of Inl f \<Rightarrow> Inl (PrimitiveFault f) | Inr x \<Rightarrow> Inr x)"

text \<open>What a thunk of the registry extracts from a step: an input slot, an attribute.\<close>

definition input_slot :: "(string \<times> Handle list) list \<Rightarrow> string \<Rightarrow> ReplayError + Handle list" where
  "input_slot ins slot = (case map_of ins slot of None \<Rightarrow> Inl ArityMismatch | Some hs \<Rightarrow> Inr hs)"

fun loop_handles :: "Handle list \<Rightarrow> ReplayError + LoopHandle list" where
  "loop_handles [] = Inr []"
| "loop_handles (LoopRef h # hs) =
     (case loop_handles hs of Inl e \<Rightarrow> Inl e | Inr r \<Rightarrow> Inr (h # r))"
| "loop_handles (BlockRef b # hs) = Inl (PrimitiveFault CheckFailed)"

definition single_loop :: "(string \<times> Handle list) list \<Rightarrow> string \<Rightarrow> ReplayError + LoopHandle" where
  "single_loop ins slot =
     (case input_slot ins slot of
        Inl e \<Rightarrow> Inl e
      | Inr [LoopRef h] \<Rightarrow> Inr h
      | Inr [BlockRef b] \<Rightarrow> Inl (PrimitiveFault CheckFailed)
      | Inr _ \<Rightarrow> Inl ReplayDivergence)"

definition single_block :: "(string \<times> Handle list) list \<Rightarrow> string \<Rightarrow> ReplayError + BlockHandle" where
  "single_block ins slot =
     (case input_slot ins slot of
        Inl e \<Rightarrow> Inl e
      | Inr [BlockRef b] \<Rightarrow> Inr b
      | Inr [LoopRef h] \<Rightarrow> Inl (PrimitiveFault CheckFailed)
      | Inr _ \<Rightarrow> Inl ReplayDivergence)"

definition ints_attr :: "(string \<times> Attribute) list \<Rightarrow> string \<Rightarrow> ReplayError + int list" where
  "ints_attr ats a =
     (case map_of ats a of
        None \<Rightarrow> Inl ArityMismatch
      | Some (IntsAttr ws) \<Rightarrow> Inr (map sint ws)
      | Some _ \<Rightarrow> Inl AttributeTypeMismatch)"

definition string_attr :: "(string \<times> Attribute) list \<Rightarrow> string \<Rightarrow> ReplayError + string" where
  "string_attr ats a =
     (case map_of ats a of
        None \<Rightarrow> Inl ArityMismatch
      | Some (StringAttr s) \<Rightarrow> Inr s
      | Some _ \<Rightarrow> Inl AttributeTypeMismatch)"

text \<open>
  The registry: the thunk of an operation kind calls the primitive of that name on
  the schedule and returns the handles it produced. The kinds, their input slots and
  attributes are those the test of the trace uses (\<open>GetAllBlocks\<close>, \<open>GetLoops\<close>,
  \<open>GetLoopsWithName\<close>, \<open>Fuse\<close>, \<open>Split\<close>), with \<open>Reorder\<close> and \<open>Bind\<close>.
\<close>

definition invoke :: "string \<Rightarrow> IRSchedule \<Rightarrow> (string \<times> Handle list) list \<Rightarrow> (string \<times> Attribute) list
    \<Rightarrow> ReplayError + (Handle list \<times> IRSchedule)" where
  "invoke kind sch ins ats =
     (if kind = ''GetAllBlocks'' then Inr (map BlockRef (GetAllBlocks sch), sch)
      else if kind = ''GetLoops'' then
        (case single_block ins ''block'' of
           Inl e \<Rightarrow> Inl e
         | Inr b \<Rightarrow> map_sum id (\<lambda>ls. (map LoopRef ls, sch)) (lift_fault (GetLoops sch b)))
      else if kind = ''GetLoopsWithName'' then
        (case string_attr ats ''block_name'' of
           Inl e \<Rightarrow> Inl e
         | Inr nm \<Rightarrow>
             (case lift_fault (GetBlock sch nm) of
                Inl e \<Rightarrow> Inl e
              | Inr b \<Rightarrow> map_sum id (\<lambda>ls. (map LoopRef ls, sch)) (lift_fault (GetLoops sch b))))
      else if kind = ''Fuse'' then
        (case input_slot ins ''loops'' of
           Inl e \<Rightarrow> Inl e
         | Inr hs \<Rightarrow>
             (case loop_handles hs of
                Inl e \<Rightarrow> Inl e
              | Inr ls \<Rightarrow> map_sum id (\<lambda>(f, s). ([LoopRef f], s)) (lift_fault (Fuse sch ls))))
      else if kind = ''Split'' then
        (case single_loop ins ''loop'' of
           Inl e \<Rightarrow> Inl e
         | Inr l \<Rightarrow>
             (case ints_attr ats ''factors'' of
                Inl e \<Rightarrow> Inl e
              | Inr fs \<Rightarrow> map_sum id (\<lambda>(ls, s). (map LoopRef ls, s)) (lift_fault (Split sch l fs))))
      else if kind = ''Reorder'' then
        (case input_slot ins ''loops'' of
           Inl e \<Rightarrow> Inl e
         | Inr hs \<Rightarrow>
             (case loop_handles hs of
                Inl e \<Rightarrow> Inl e
              | Inr ls \<Rightarrow> map_sum id (\<lambda>s. ([], s)) (lift_fault (Reorder sch ls))))
      else if kind = ''Bind'' then
        (case single_loop ins ''loop'' of
           Inl e \<Rightarrow> Inl e
         | Inr l \<Rightarrow>
             (case string_attr ats ''thread_axis'' of
                Inl e \<Rightarrow> Inl e
              | Inr axis \<Rightarrow> map_sum id (\<lambda>s. ([], s)) (lift_fault (Bind sch l axis))))
      else Inl UnknownOperationKind)"

text \<open>
  \<open>Replay\<close>: the steps in order; the inputs of a step are resolved by name in the
  name table of this replay, which starts empty; the handles the thunk returns are
  recorded under the output names of the step, and there must be as many of them.
  It returns the handles of the last step with the schedule.
\<close>

fun resolve :: "(string \<times> Handle) list \<Rightarrow> string list \<Rightarrow> ReplayError + Handle list" where
  "resolve table [] = Inr []"
| "resolve table (n # ns) =
     (case map_of table n of
        None \<Rightarrow> Inl DanglingInputReference
      | Some h \<Rightarrow> (case resolve table ns of Inl e \<Rightarrow> Inl e | Inr hs \<Rightarrow> Inr (h # hs)))"

fun resolve_inputs :: "(string \<times> Handle) list \<Rightarrow> (string \<times> string list) list
    \<Rightarrow> ReplayError + (string \<times> Handle list) list" where
  "resolve_inputs table [] = Inr []"
| "resolve_inputs table ((slot, ns) # rest) =
     (case resolve table ns of
        Inl e \<Rightarrow> Inl e
      | Inr hs \<Rightarrow>
          (case resolve_inputs table rest of Inl e \<Rightarrow> Inl e | Inr r \<Rightarrow> Inr ((slot, hs) # r)))"

definition replay_step :: "IRSchedule \<Rightarrow> (string \<times> Handle) list \<Rightarrow> Step
    \<Rightarrow> ReplayError + (Handle list \<times> IRSchedule \<times> (string \<times> Handle) list)" where
  "replay_step sch table step =
     (case resolve_inputs table (inputs step) of
        Inl e \<Rightarrow> Inl e
      | Inr ins \<Rightarrow>
          (case invoke (step_type step) sch ins (attrs step) of
             Inl e \<Rightarrow> Inl e
           | Inr (outs, sch') \<Rightarrow>
               if length outs \<noteq> length (concat (map snd (outputs step))) then Inl ArityMismatch
               else Inr (outs, sch', zip (concat (map snd (outputs step))) outs @ table)))"

fun replay_steps :: "Handle list \<Rightarrow> IRSchedule \<Rightarrow> (string \<times> Handle) list \<Rightarrow> Step list
    \<Rightarrow> ReplayError + (Handle list \<times> IRSchedule)" where
  "replay_steps live sch table [] = Inr (live, sch)"
| "replay_steps live sch table (step # rest) =
     (case replay_step sch table step of
        Inl e \<Rightarrow> Inl e
      | Inr (outs, sch', table') \<Rightarrow> replay_steps outs sch' table' rest)"

definition Replay :: "ScheduleDesc \<Rightarrow> IRSchedule \<Rightarrow> ReplayError + (Handle list \<times> IRSchedule)" where
  "Replay desc schedule = replay_steps [] schedule [] (steps desc)"

text \<open>
  The IR of a schedule is the loop nest of each block as an expression; an expression
  holds no handle.
\<close>

definition module_exprs :: "IRSchedule \<Rightarrow> (string \<times> Expr list) list" where
  "module_exprs sch = map (\<lambda>e. (fst e, nest_body (loops (snd e)) (stmts (snd e)))) (nests sch)"

section \<open>Recording\<close>

text \<open>
  Modelled from the spec: what records a descriptor is not among the sources (the
  header declares \<open>Append\<close>, the test of the trace calls it). A descriptor is
  recorded by calling a primitive on the schedule, with the handles earlier calls
  returned, and appending a step made of the kind, the input handles, the attributes
  and the handles the call returned (\<open>ir_sch.Fuse(loops)\<close>, then
  \<open>desc.Append(Step("Fuse", {{"loops", loops}}, {}, {fused}))\<close>). \<open>apply_op\<close> is the
  direct call on the schedule; \<open>op_kind\<close>, \<open>op_inputs\<close> and \<open>op_attrs\<close> are what
  the caller passes to the step.
\<close>

datatype Op =
    OpGetAllBlocks
  | OpGetLoops BlockHandle
  | OpGetLoopsWithName string
  | OpFuse "LoopHandle list"
  | OpSplit LoopHandle "64 word list"
  | OpReorder "LoopHandle list"
  | OpBind LoopHandle string

fun apply_op :: "IRSchedule \<Rightarrow> Op \<Rightarrow> fault + (Handle list \<times> IRSchedule)" where
  "apply_op sch OpGetAllBlocks = Inr (map BlockRef (GetAllBlocks sch), sch)"
| "apply_op sch (OpGetLoops b) = map_sum id (\<lambda>ls. (map LoopRef ls, sch)) (GetLoops sch b)"
| "apply_op sch (OpGetLoopsWithName nm) =
     (case GetBlock sch nm of
        Inl f \<Rightarrow> Inl f
      | Inr b \<Rightarrow> map_sum id (\<lambda>ls. (map LoopRef ls, sch)) (GetLoops sch b))"
| "apply_op sch (OpFuse ls) = map_sum id (\<lambda>r. ([LoopRef (fst r)], snd r)) (Fuse sch ls)"
| "apply_op sch (OpSplit l fs) =
     map_sum id (\<lambda>r. (map LoopRef (fst r), snd r)) (Split sch l (map sint fs))"
| "apply_op sch (OpReorder ls) = map_sum id (\<lambda>s. ([], s)) (Reorder sch ls)"
| "apply_op sch (OpBind l axis) = map_sum id (\<lambda>s. ([], s)) (Bind sch l axis)"

fun op_kind :: "Op \<Rightarrow> string" where
  "op_kind OpGetAllBlocks = ''GetAllBlocks''"
| "op_kind (OpGetLoops b) = ''GetLoops''"
| "op_kind (OpGetLoopsWithName nm) = ''GetLoopsWithName''"
| "op_kind (OpFuse ls) = ''Fuse''"
| "op_kind (OpSplit l fs) = ''Split''"
| "op_kind (OpReorder ls) = ''Reorder''"
| "op_kind (OpBind l axis) = ''Bind''"

fun op_inputs :: "Op \<Rightarrow> (string \<times> Handle list) list" where
  "op_inputs OpGetAllBlocks = []"
| "op_inputs (OpGetLoops b) = [(''block'', [BlockRef b])]"
| "op_inputs (OpGetLoopsWithName nm) = []"
| "op_inputs (OpFuse ls) = [(''loops'', map LoopRef ls)]"
| "op_inputs (OpSplit l fs) = [(''loop'', [LoopRef l])]"
| "op_inputs (OpReorder ls) = [(''loops'', map LoopRef ls)]"
| "op_inputs (OpBind l axis) = [(''loop'', [LoopRef l])]"

fun op_attrs :: "Op \<Rightarrow> (string \<times> Attribute) list" where
  "op_attrs (OpGetLoopsWithName nm) = [(''block_name'', StringAttr nm)]"
| "op_attrs (OpSplit l fs) = [(''factors'', IntsAttr fs)]"
| "op_attrs (OpBind l axis) = [(''thread_axis'', StringAttr axis)]"
| "op_attrs _ = []"

text \<open>
  \<open>Append\<close>: every input handle has to be in the name table, or the step is refused
  with \<open>DanglingInputReference\<close>; the outputs get fresh names, which the table then
  holds. The \<open>k\<close>-th name ever given is \<open>expr_name k\<close>.
\<close>

definition expr_name :: "nat \<Rightarrow> string" where
  "expr_name k = CHR ''e'' # replicate k (CHR ''x'')"

fun names_for :: "(string \<times> Handle) list \<Rightarrow> Handle list \<Rightarrow> ReplayError + string list" where
  "names_for table [] = Inr []"
| "names_for table (h # hs) =
     (case find (\<lambda>e. snd e = h) table of
        None \<Rightarrow> Inl DanglingInputReference
      | Some e \<Rightarrow> (case names_for table hs of Inl x \<Rightarrow> Inl x | Inr ns \<Rightarrow> Inr (fst e # ns)))"

fun name_inputs :: "(string \<times> Handle) list \<Rightarrow> (string \<times> Handle list) list
    \<Rightarrow> ReplayError + (string \<times> string list) list" where
  "name_inputs table [] = Inr []"
| "name_inputs table ((slot, hs) # rest) =
     (case names_for table hs of
        Inl x \<Rightarrow> Inl x
      | Inr ns \<Rightarrow>
          (case name_inputs table rest of Inl x \<Rightarrow> Inl x | Inr r \<Rightarrow> Inr ((slot, ns) # r)))"

definition fresh_names :: "(string \<times> Handle) list \<Rightarrow> nat \<Rightarrow> string list" where
  "fresh_names table m = map (\<lambda>j. expr_name (length table + j)) [0 ..< m]"

definition Append :: "Step list \<Rightarrow> (string \<times> Handle) list \<Rightarrow> Op \<Rightarrow> Handle list
    \<Rightarrow> ReplayError + (Step list \<times> (string \<times> Handle) list)" where
  "Append sts table op outs =
     (case name_inputs table (op_inputs op) of
        Inl x \<Rightarrow> Inl x
      | Inr named \<Rightarrow>
          Inr (sts @ [\<lparr>step_type = op_kind op, inputs = named,
                        outputs = [(''out'', fresh_names table (length outs))],
                        attrs = op_attrs op\<rparr>],
               zip (fresh_names table (length outs)) outs @ table))"

fun record_ops :: "IRSchedule \<Rightarrow> Step list \<Rightarrow> (string \<times> Handle) list \<Rightarrow> Op list
    \<Rightarrow> ReplayError + (Step list \<times> (string \<times> Handle) list \<times> IRSchedule)" where
  "record_ops sch sts table [] = Inr (sts, table, sch)"
| "record_ops sch sts table (op # ops) =
     (case lift_fault (apply_op sch op) of
        Inl x \<Rightarrow> Inl x
      | Inr (outs, sch') \<Rightarrow>
          (case Append sts table op outs of
             Inl x \<Rightarrow> Inl x
           | Inr (sts', table') \<Rightarrow> record_ops sch' sts' table' ops))"

text \<open>
  \<open>Record ops sch\<close>: the descriptor recorded against the IR of \<open>sch\<close> by the calls
  \<open>ops\<close>, with the IR these calls have made.
\<close>

definition Record :: "Op list \<Rightarrow> IRSchedule \<Rightarrow> ReplayError + (ScheduleDesc \<times> IRSchedule)" where
  "Record ops sch =
     (case record_ops sch [] [] ops of
        Inl x \<Rightarrow> Inl x
      | Inr (sts, table, sch') \<Rightarrow> Inr (\<lparr>steps = sts, name2expr = map_of table\<rparr>, sch'))"

text \<open>
  The name table of a recording: no name is given twice, and the names given are the
  first ones.
\<close>

definition table_ok :: "(string \<times> Handle) list \<Rightarrow> bool" where
  "table_ok table = (distinct (map fst table) \<and> fst ` set table \<subseteq> expr_name ` {..< length table})"

section \<open>The same IR under other handles\<close>

text \<open>
  A schedule object built on an IR, as \<open>MakeIRSchedule\<close> of the test builds one: the
  loops of a nest are all the loops around its statements (the statements are not one
  more loop), every loop has an identity of its own, and the schedule has issued
  these identities. Two such objects hold structurally equal IRs when their
  \<open>module_exprs\<close> are equal; nothing relates the handles of the one to those of the
  other.
\<close>

definition loop_ids :: "IRSchedule \<Rightarrow> nat list" where
  "loop_ids s = concat (map (\<lambda>e. map loop_id (loops (snd e))) (nests s))"

definition loops_complete :: "Expr list \<Rightarrow> bool" where
  "loops_complete ss = (case ss of [For t b v e body] \<Rightarrow> False | _ \<Rightarrow> True)"

definition wf_schedule :: "IRSchedule \<Rightarrow> bool" where
  "wf_schedule s =
     (distinct (loop_ids s) \<and> list_all (\<lambda>i. i < next_id s) (loop_ids s)
      \<and> list_all (\<lambda>e. loops_complete (stmts (snd e))) (nests s))"

text \<open>
  For the proof: \<open>fresh_copy \<rho> s s'\<close> says that \<open>s'\<close> is \<open>s\<close> with the identity \<open>\<rho> i\<close>
  where \<open>s\<close> has the loop identity \<open>i\<close>, different loops of \<open>s\<close> getting different
  identities, and that both schedules have issued the identities of their loops.
\<close>

definition rename_loop :: "(nat \<Rightarrow> nat) \<Rightarrow> Loop \<Rightarrow> Loop" where
  "rename_loop \<rho> l = l\<lparr>loop_id := \<rho> (loop_id l)\<rparr>"

definition rename_handle :: "(nat \<Rightarrow> nat) \<Rightarrow> LoopHandle \<Rightarrow> LoopHandle" where
  "rename_handle \<rho> h = (fst h, \<rho> (snd h))"

fun rename_ref :: "(nat \<Rightarrow> nat) \<Rightarrow> Handle \<Rightarrow> Handle" where
  "rename_ref \<rho> (BlockRef b) = BlockRef b"
| "rename_ref \<rho> (LoopRef h) = LoopRef (rename_handle \<rho> h)"

definition rename_nest :: "(nat \<Rightarrow> nat) \<Rightarrow> LoopNest \<Rightarrow> LoopNest" where
  "rename_nest \<rho> n = n\<lparr>loops := map (rename_loop \<rho>) (loops n)\<rparr>"

definition rename_nests :: "(nat \<Rightarrow> nat) \<Rightarrow> (string \<times> LoopNest) list \<Rightarrow> (string \<times> LoopNest) list" where
  "rename_nests \<rho> ns = map (\<lambda>e. (fst e, rename_nest \<rho> (snd e))) ns"

definition fresh_copy :: "(nat \<Rightarrow> nat) \<Rightarrow> IRSchedule \<Rightarrow> IRSchedule \<Rightarrow> bool" where
  "fresh_copy \<rho> s s' =
     (nests s' = rename_nests \<rho> (nests s)
      \<and> inj_on \<rho> (set (loop_ids s))
      \<and> list_all (\<lambda>i. i < next_id s \<and> \<rho> i < next_id s') (loop_ids s))"

text \<open>
  The last three calls of the test \<open>Append_Replay\<close>: the loops of \<open>B\<close> are fetched
  and fused, and the fused loop is split by 256. Here they are recorded against the
  elementwise block under the loops \<open>i\<close> and \<open>j\<close> of extent 32; the other schedule
  has the same IR with the identities 7 and 4 for the two loops.
\<close>

definition example_ops :: "Op list" where
  "example_ops = [OpGetLoopsWithName ''B'', OpFuse [(''B'', 0), (''B'', 1)], OpSplit (''B'', 2) [256, - 1]]"

definition example_ir :: IRSchedule where
  "example_ir = \<lparr>nests = [(''B'', \<lparr>loops = two_loops, stmts = [elementwise_block]\<rparr>)], next_id = 2, calls = []\<rparr>"

definition example_fresh_ir :: IRSchedule where
  "example_fresh_ir =
     \<lparr>nests = [(''B'', \<lparr>loops = [example_loop 7 ''i'' 32 None, example_loop 4 ''j'' 32 None],
                         stmts = [elementwise_block]\<rparr>)],
      next_id = 9, calls = []\<rparr>"

text \<open>
  The descriptor these calls record, and the schedule they leave.
\<close>

definition example_desc :: ScheduleDesc where
  "example_desc =
     \<lparr>steps =
        [\<lparr>step_type = ''GetLoopsWithName'', inputs = [], outputs = [(''out'', [''e'', ''ex''])],
          attrs = [(''block_name'', StringAttr ''B'')]\<rparr>,
         \<lparr>step_type = ''Fuse'', inputs = [(''loops'', [''e'', ''ex''])],
          outputs = [(''out'', [''exx''])], attrs = []\<rparr>,
         \<lparr>step_type = ''Split'', inputs = [(''loop'', [''exx''])],
          outputs = [(''out'', [''exxx'', ''exxxx''])],
          attrs = [(''factors'', IntsAttr [256, - 1])]\<rparr>],
      name2expr =
        map_of [(''exxx'', LoopRef (''B'', 3)), (''exxxx'', LoopRef (''B'', 4)),
                (''exx'', LoopRef (''B'', 2)), (''e'', LoopRef (''B'', 0)),
                (''ex'', LoopRef (''B'', 1))]\<rparr>"

definition example_recorded :: IRSchedule where
  "example_recorded =
     \<lparr>nests = [(''B'', \<lparr>loops = [example_loop 3 ''i_j_fused_s'' 256 None,
                                  example_loop 4 ''i_j_fused_ss'' 4 None],
                         stmts = [elementwise_block]\<rparr>)],
      next_id = 5,
      calls = [FuseCall [(''B'', 0), (''B'', 1)] (''B'', 2),
               SplitCall (''B'', 2) [256, - 1] [(''B'', 3), (''B'', 4)]]\<rparr>"

text \<open>
  For the proof: \<open>renamed \<rho> s s'\<close> is \<open>fresh_copy\<close> with a renaming of all
  identities, those not yet issued included: \<open>s'\<close> issues \<open>\<rho> i\<close> when \<open>s\<close> issues \<open>i\<close>.
  \<open>rename_ins\<close> and \<open>rename_table\<close> rename the handles of resolved inputs and of a
  name table.
\<close>

definition renamed :: "(nat \<Rightarrow> nat) \<Rightarrow> IRSchedule \<Rightarrow> IRSchedule \<Rightarrow> bool" where
  "renamed \<rho> s s' =
     (inj \<rho> \<and> (\<forall>k. \<rho> (next_id s + k) = \<rho> (next_id s) + k)
      \<and> nests s' = rename_nests \<rho> (nests s) \<and> next_id s' = \<rho> (next_id s))"

definition rename_ins :: "(nat \<Rightarrow> nat) \<Rightarrow> (string \<times> Handle list) list \<Rightarrow> (string \<times> Handle list) list" where
  "rename_ins \<rho> ins = map (\<lambda>e. (fst e, map (rename_ref \<rho>) (snd e))) ins"

definition rename_table :: "(nat \<Rightarrow> nat) \<Rightarrow> (string \<times> Handle) list \<Rightarrow> (string \<times> Handle) list" where
  "rename_table \<rho> table = map (\<lambda>e. (fst e, rename_ref \<rho> (snd e))) table"

section \<open>The count as the specification words it\<close>

text \<open>
  The specification's count, written after its words and not after the code: a loop
  is bindable when it is a plain serial loop, is not bound to a hardware dimension,
  and no schedule block under it has a reduction axis (flagged, or named with the
  prefix \<open>reduce\<close>) whose binding uses the loop variable. The count is the number of
  consecutive bindable loops from the top, going down through bodies that are a
  single nested loop.
\<close>

definition spec_reduce_axis :: "Var \<Rightarrow> bool" where
  "spec_reduce_axis v = (is_reduce_axis v \<or> take 6 (name v) = ''reduce'')"

definition spec_names_var :: "Var \<Rightarrow> Expr \<Rightarrow> bool" where
  "spec_names_var lv x = (case x of VarRef v \<Rightarrow> name v = name lv | _ \<Rightarrow> False)"

definition spec_reduces_over :: "Var \<Rightarrow> Expr \<Rightarrow> bool" where
  "spec_reduces_over lv x =
     (case x of
        ScheduleBlockRealize vals (ScheduleBlock ivs nm body) \<Rightarrow>
          list_ex (\<lambda>p. spec_reduce_axis (fst p) \<and> list_ex (spec_names_var lv) (nodes (snd p))) (zip ivs vals)
      | _ \<Rightarrow> False)"

definition spec_bindable :: "ForType \<Rightarrow> string option \<Rightarrow> Var \<Rightarrow> Expr \<Rightarrow> bool" where
  "spec_bindable ft b lv body =
     (ft = Serial \<and> \<not> is_binded b \<and> \<not> list_ex (spec_reduces_over lv) (nodes body))"

fun spec_count :: "Expr \<Rightarrow> nat" where
  "spec_count (For ft b lv ext body) =
     (if spec_bindable ft b lv body
      then Suc (case body of Block [s] \<Rightarrow> spec_count s | _ \<Rightarrow> 0)
      else 0)"
| "spec_count _ = 0"

section \<open>Properties of the primitives\<close>

lemma map_of_set_nest:
  "map_of ns blk = Some n \<Longrightarrow> map_of (set_nest blk n' ns) blk = Some n'"
  by (induction ns) (auto simp: set_nest_def)

lemma GetLoops_nest:
  "map_of (nests sch) blk = Some n \<Longrightarrow> GetLoops sch blk = Inr (handles blk (loops n))"
  by (simp add: GetLoops_def handles_def)

lemma find_distinct_nth:
  "distinct (map loop_id ls) \<Longrightarrow> k < length ls \<Longrightarrow>
   find (\<lambda>l. loop_id l = loop_id (ls ! k)) ls = Some (ls ! k)"
proof (induction ls arbitrary: k)
  case Nil
  then show ?case by simp
next
  case (Cons a ls)
  show ?case
  proof (cases k)
    case 0
    then show ?thesis by simp
  next
    case (Suc j)
    with Cons.prems have "j < length ls" "loop_id (ls ! j) \<in> set (map loop_id ls)" by auto
    with Cons Suc show ?thesis by auto
  qed
qed

lemma loop_at_nth:
  "map_of (nests sch) blk = Some n \<Longrightarrow> distinct (map loop_id (loops n)) \<Longrightarrow> k < length (loops n) \<Longrightarrow>
   loop_at sch (handles blk (loops n) ! k) = Some (loops n ! k)"
  by (simp add: loop_at_def handles_def find_distinct_nth)

lemma Fuse_front:
  assumes "map_of (nests sch) blk = Some n" "0 < k" "k \<le> length (loops n)"
  shows "\<exists>s1. Fuse sch (take k (handles blk (loops n))) = Inr ((blk, next_id sch), s1)
           \<and> map_of (nests s1) blk = Some (n\<lparr>loops := fused_loop_of sch n k # drop k (loops n)\<rparr>)
           \<and> next_id s1 = next_id sch + 1
           \<and> calls s1 = calls sch @ [FuseCall (take k (handles blk (loops n))) (blk, next_id sch)]"
proof -
  from assms obtain l ls where ls: "loops n = l # ls" by (cases "loops n") auto
  from assms obtain j where k: "k = Suc j" by (cases k) auto
  show ?thesis
    using assms ls k
    by (simp add: Fuse_def handles_def Let_def fused_loop_of_def fused_extent_def map_of_set_nest take_map min_def)
qed

lemma Bind_at:
  assumes "map_of (nests s) blk = Some n" "loops n = pre @ l # post"
    "\<forall>x \<in> set pre \<union> set post. loop_id x \<noteq> loop_id l"
  shows "\<exists>s'. Bind s (blk, loop_id l) axis = Inr s'
           \<and> map_of (nests s') blk = Some (n\<lparr>loops := pre @ l\<lparr>bind_info := Some axis\<rparr> # post\<rparr>)
           \<and> next_id s' = next_id s
           \<and> calls s' = calls s @ [BindCall (blk, loop_id l) axis]"
proof -
  have f: "find (\<lambda>x. loop_id x = loop_id l) (pre @ l # post) \<noteq> None"
    by (auto simp: find_None_iff)
  have m: "map (\<lambda>x. if loop_id x = loop_id l then x\<lparr>bind_info := Some axis\<rparr> else x) (pre @ l # post)
           = pre @ l\<lparr>bind_info := Some axis\<rparr> # post"
    using assms(3) by (simp add: map_idI)
  show ?thesis using assms(1,2) f m
    by (simp add: Bind_def map_of_set_nest)
qed

lemma Split_front:
  assumes "map_of (nests s) blk = Some n" "loops n = l # post"
    "infer_factors (extent l) factors = Inr es"
  shows "\<exists>s'. Split s (blk, loop_id l) factors
              = Inr (handles blk (split_loops (next_id s) (loop_var l) es), s')
           \<and> map_of (nests s') blk = Some (n\<lparr>loops := split_loops (next_id s) (loop_var l) es @ post\<rparr>)
           \<and> next_id s' = next_id s + length es
           \<and> calls s' = calls s @ [SplitCall (blk, loop_id l) factors
                                      (handles blk (split_loops (next_id s) (loop_var l) es))]"
  using assms by (simp add: Split_def Let_def handles_def map_of_set_nest)

lemma infer_factors2:
  "0 < t \<Longrightarrow> infer_factors e [- 1, t] = Inr [(e + t - 1) div t, t]"
  by (auto simp: infer_factors_def Let_def)


lemma split_loops2:
  "split_loops i v [a, b] =
     [\<lparr>loop_id = i, for_type = Serial, bind_info = None, loop_var = split_var v 0, extent = a\<rparr>,
      \<lparr>loop_id = i + 1, for_type = Serial, bind_info = None, loop_var = split_var v 1, extent = b\<rparr>]"
  by (simp add: split_loops_def upt_rec)



section \<open>The binding algorithm\<close>

lemma int32_mul_exact:
  assumes "- (2 ^ 31) \<le> a * b" "a * b < 2 ^ 31"
  shows "int32_mul a b = a * b"
proof -
  have "sint (word_of_int (a * b) :: 32 word) = signed_take_bit 31 (a * b)"
    by (simp only: sint_sbintrunc') simp
  also have "\<dots> = a * b"
    using assms by (simp add: signed_take_bit_int_eq_self)
  finally show ?thesis by (simp add: int32_mul_def)
qed


lemma fresh_drop:
  "wf_nest sch n \<Longrightarrow> \<forall>x \<in> set (drop k (loops n)). loop_id x < next_id sch"
  by (auto simp: wf_nest_def list_all_iff dest: in_set_dropD)

lemma thread_claimed_loop_at:
  assumes "map_of (nests sch) blk = Some n" "wf_nest sch n" "k \<le> length (loops n)"
  shows "(if k < length (handles blk (loops n))
          then (case loop_at sch (handles blk (loops n) ! k) of
                  None \<Rightarrow> Inl OutOfRange
                | Some l \<Rightarrow> Inr (is_gpu_thread_binded (bind_info l)))
          else Inr False) = Inr (thread_claimed n k)"
proof (cases "k < length (loops n)")
  case True
  with assms have "loop_at sch (handles blk (loops n) ! k) = Some (loops n ! k)"
    by (simp add: loop_at_nth wf_nest_def)
  with True show ?thesis by (simp add: thread_claimed_def handles_def)
next
  case False
  then show ?thesis by (simp add: thread_claimed_def handles_def)
qed

lemma loop_at_front:
  "map_of (nests s) blk = Some n \<Longrightarrow> loops n = l # post \<Longrightarrow> loop_at s (blk, loop_id l) = Some l"
  by (simp add: loop_at_def)

lemma BindGPUIndex_fused:
  assumes "map_of (nests sch) blk = Some n" "wf_nest sch n" "0 < k" "k \<le> length (loops n)"
  shows "\<exists>s1. map_of (nests s1) blk = Some (n\<lparr>loops := fused_loop_of sch n k # drop k (loops n)\<rparr>)
           \<and> next_id s1 = next_id sch + 1
           \<and> calls s1 = calls sch @ [FuseCall (take k (handles blk (loops n))) (blk, next_id sch)]
           \<and> BindGPUIndex sch blk k B T =
               (if thread_claimed n k then Bind s1 (blk, next_id sch) ''blockIdx.x''
                else if fused_extent n k \<le> T then Bind s1 (blk, next_id sch) ''threadIdx.x''
                else if fused_extent n k \<le> int32_mul B T then
                  (case Split s1 (blk, next_id sch) [- 1, T] of
                     Inl f \<Rightarrow> Inl f
                   | Inr (splits, s2) \<Rightarrow> bind_splits2 s2 splits)
                else
                  (case Split s1 (blk, next_id sch) [- 1, B, T] of
                     Inl f \<Rightarrow> Inl f
                   | Inr (splits, s2) \<Rightarrow> bind_splits3 s2 splits))"
proof -
  from Fuse_front [OF assms(1,3,4)] obtain s1 where
    fu: "Fuse sch (take k (handles blk (loops n))) = Inr ((blk, next_id sch), s1)"
    and n1: "map_of (nests s1) blk = Some (n\<lparr>loops := fused_loop_of sch n k # drop k (loops n)\<rparr>)"
    and rest: "next_id s1 = next_id sch + 1"
      "calls s1 = calls sch @ [FuseCall (take k (handles blk (loops n))) (blk, next_id sch)]"
    by blast
  have la: "loop_at s1 (blk, next_id sch) = Some (fused_loop_of sch n k)"
    using loop_at_front [OF n1, of "fused_loop_of sch n k" "drop k (loops n)"]
    by (simp add: fused_loop_of_def)
  have len: "length (handles blk (loops n)) = length (loops n)" by (simp add: handles_def)
  have "BindGPUIndex sch blk k B T =
               (if thread_claimed n k then Bind s1 (blk, next_id sch) ''blockIdx.x''
                else if fused_extent n k \<le> T then Bind s1 (blk, next_id sch) ''threadIdx.x''
                else if fused_extent n k \<le> int32_mul B T then
                  (case Split s1 (blk, next_id sch) [- 1, T] of
                     Inl f \<Rightarrow> Inl f
                   | Inr (splits, s2) \<Rightarrow> bind_splits2 s2 splits)
                else
                  (case Split s1 (blk, next_id sch) [- 1, B, T] of
                     Inl f \<Rightarrow> Inl f
                   | Inr (splits, s2) \<Rightarrow> bind_splits3 s2 splits))"
    by (simp only: BindGPUIndex_def GetLoops_nest [OF assms(1)] sum.case
          thread_claimed_loop_at [OF assms(1,2,4)])
       (simp add: fu la fused_loop_of_def len assms(4))
  with n1 rest show ?thesis by blast
qed

lemma Bind_fused:
  assumes "map_of (nests s1) blk = Some (n\<lparr>loops := fused_loop_of sch n k # drop k (loops n)\<rparr>)"
    "wf_nest sch n" "calls s1 = cs"
  shows "returns (Bind s1 (blk, next_id sch) axis)
       \<and> calls_after (Bind s1 (blk, next_id sch) axis) = cs @ [BindCall (blk, next_id sch) axis]
       \<and> loops_after (Bind s1 (blk, next_id sch) axis) blk
           = (fused_loop_of sch n k)\<lparr>bind_info := Some axis\<rparr> # drop k (loops n)"
proof -
  have id: "loop_id (fused_loop_of sch n k) = next_id sch" by (simp add: fused_loop_of_def)
  have fr: "\<forall>x \<in> set [] \<union> set (drop k (loops n)). loop_id x \<noteq> loop_id (fused_loop_of sch n k)"
    using fresh_drop [OF assms(2), of k] id by auto
  from Bind_at [OF assms(1) _ fr, of axis] id assms(3)
  show ?thesis by (auto simp: returns_def calls_after_def loops_after_def)
qed

text \<open>
  Claim C4 (thread dimension already claimed). When the loop right after the
  \<open>k\<close> loops to bind carries a thread binding, \<open>BindGPUIndex\<close> returns, and the
  primitive calls it has made are exactly two: the \<open>Fuse\<close> of the first \<open>k\<close> loops
  and the \<open>Bind\<close> of the fused loop to \<open>blockIdx.x\<close>. So there is no split, no
  reorder and no bind to a thread dimension. The nest then starts with the fused
  loop, bound to \<open>blockIdx.x\<close>, followed by the loops that were not fused.
\<close>

theorem thread_claimed_branch:
  assumes "map_of (nests sch) blk = Some n" "wf_nest sch n" "0 < k" "thread_claimed n k"
  shows "returns (BindGPUIndex sch blk k B T)
       \<and> calls_after (BindGPUIndex sch blk k B T)
           = calls sch @ [FuseCall (take k (handles blk (loops n))) (blk, next_id sch),
                          BindCall (blk, next_id sch) ''blockIdx.x'']
       \<and> loops_after (BindGPUIndex sch blk k B T) blk
           = (fused_loop_of sch n k)\<lparr>bind_info := Some ''blockIdx.x''\<rparr> # drop k (loops n)"
proof -
  from assms(4) have k: "k \<le> length (loops n)" by (simp add: thread_claimed_def)
  from BindGPUIndex_fused [OF assms(1,2,3) k, of B T] assms(4) obtain s1 where
    n1: "map_of (nests s1) blk = Some (n\<lparr>loops := fused_loop_of sch n k # drop k (loops n)\<rparr>)"
    and c1: "calls s1 = calls sch @ [FuseCall (take k (handles blk (loops n))) (blk, next_id sch)]"
    and eq: "BindGPUIndex sch blk k B T = Bind s1 (blk, next_id sch) ''blockIdx.x''"
    by auto
  from Bind_fused [OF n1 assms(2) c1, of "''blockIdx.x''"] eq show ?thesis by simp
qed

theorem thread_claimed_branch_witness:
  "map_of (nests (example_schedule 32 32 (Some ''threadIdx.x''))) ''B''
     = Some (example_nest 32 32 (Some ''threadIdx.x''))
   \<and> wf_nest (example_schedule 32 32 (Some ''threadIdx.x'')) (example_nest 32 32 (Some ''threadIdx.x''))
   \<and> (0::nat) < 2
   \<and> thread_claimed (example_nest 32 32 (Some ''threadIdx.x'')) 2
   \<and> returns (BindGPUIndex (example_schedule 32 32 (Some ''threadIdx.x'')) ''B'' 2 256 1024)
   \<and> calls_after (BindGPUIndex (example_schedule 32 32 (Some ''threadIdx.x'')) ''B'' 2 256 1024)
       = [FuseCall [(''B'', 0), (''B'', 1)] (''B'', 3), BindCall (''B'', 3) ''blockIdx.x'']
   \<and> map loop_summary
         (loops_after (BindGPUIndex (example_schedule 32 32 (Some ''threadIdx.x'')) ''B'' 2 256 1024) ''B'')
       = [(3, Some ''blockIdx.x'', 1024), (2, Some ''threadIdx.x'', 8)]"
  using thread_claimed_branch [of "example_schedule 32 32 (Some ''threadIdx.x'')" "''B''"
      "example_nest 32 32 (Some ''threadIdx.x'')" 2 256 1024]
  by (simp add: example_schedule_def example_nest_def example_loop_def wf_nest_def
      thread_claimed_def is_gpu_thread_binded_def fused_extent_def fused_loop_of_def handles_def
      loop_summary_def)

text \<open>
  Claim C5 (small extent). When no thread binding follows the \<open>k\<close> loops to bind and
  their total extent is at most \<open>max_threads_num\<close>, \<open>BindGPUIndex\<close> returns after
  exactly two primitive calls: the \<open>Fuse\<close> and one \<open>Bind\<close> of the fused loop to
  \<open>threadIdx.x\<close>. There is no split. The bound \<open>\<le>\<close> includes the extent
  \<open>max_threads_num\<close> itself, which the witness takes.
\<close>

theorem small_extent_branch:
  assumes "map_of (nests sch) blk = Some n" "wf_nest sch n" "0 < k" "k \<le> length (loops n)"
    "\<not> thread_claimed n k" "fused_extent n k \<le> T"
  shows "returns (BindGPUIndex sch blk k B T)
       \<and> calls_after (BindGPUIndex sch blk k B T)
           = calls sch @ [FuseCall (take k (handles blk (loops n))) (blk, next_id sch),
                          BindCall (blk, next_id sch) ''threadIdx.x'']
       \<and> loops_after (BindGPUIndex sch blk k B T) blk
           = (fused_loop_of sch n k)\<lparr>bind_info := Some ''threadIdx.x''\<rparr> # drop k (loops n)"
proof -
  from BindGPUIndex_fused [OF assms(1,2,3,4), of B T] assms(5,6) obtain s1 where
    n1: "map_of (nests s1) blk = Some (n\<lparr>loops := fused_loop_of sch n k # drop k (loops n)\<rparr>)"
    and c1: "calls s1 = calls sch @ [FuseCall (take k (handles blk (loops n))) (blk, next_id sch)]"
    and eq: "BindGPUIndex sch blk k B T = Bind s1 (blk, next_id sch) ''threadIdx.x''"
    by auto
  from Bind_fused [OF n1 assms(2) c1, of "''threadIdx.x''"] eq show ?thesis by simp
qed

theorem small_extent_branch_witness:
  "map_of (nests (example_schedule 32 32 None)) ''B'' = Some (example_nest 32 32 None)
   \<and> wf_nest (example_schedule 32 32 None) (example_nest 32 32 None)
   \<and> (0::nat) < 2 \<and> 2 \<le> length (loops (example_nest 32 32 None))
   \<and> \<not> thread_claimed (example_nest 32 32 None) 2
   \<and> fused_extent (example_nest 32 32 None) 2 = 1024
   \<and> returns (BindGPUIndex (example_schedule 32 32 None) ''B'' 2 256 1024)
   \<and> calls_after (BindGPUIndex (example_schedule 32 32 None) ''B'' 2 256 1024)
       = [FuseCall [(''B'', 0), (''B'', 1)] (''B'', 3), BindCall (''B'', 3) ''threadIdx.x'']
   \<and> map loop_summary (loops_after (BindGPUIndex (example_schedule 32 32 None) ''B'' 2 256 1024) ''B'')
       = [(3, Some ''threadIdx.x'', 1024), (2, None, 8)]"
  using small_extent_branch [of "example_schedule 32 32 None" "''B''" "example_nest 32 32 None" 2 1024 256]
  by (simp add: example_schedule_def example_nest_def example_loop_def wf_nest_def
      thread_claimed_def is_gpu_thread_binded_def fused_extent_def fused_loop_of_def handles_def
      loop_summary_def)

lemma ceil_div:
  assumes "0 < (t::int)"
  shows "(e + t - 1) div t = \<lceil>real_of_int e / real_of_int t\<rceil>"
proof -
  have "e + t - 1 = (e mod t + t - 1) + (e div t) * t" by (simp add: algebra_simps)
  then have "(e + t - 1) div t = (e mod t + t - 1) div t + e div t"
    using assms by (metis div_mult_self1 less_int_code(1) not_less_iff_gr_or_eq add.commute)
  moreover have "(e mod t + t - 1) div t = (if e mod t = 0 then 0 else 1)"
  proof (cases "e mod t = 0")
    case True
    with assms show ?thesis by (simp add: div_pos_pos_trivial)
  next
    case False
    have "0 \<le> e mod t" "e mod t < t" using assms by simp_all
    with False have "e mod t + t - 1 = (e mod t - 1) + 1 * t" "0 \<le> e mod t - 1" "e mod t - 1 < t" by auto
    then have "(e mod t + t - 1) div t = 1"
      using assms by (metis div_mult_self1 add.commute add_cancel_right_left div_pos_pos_trivial less_int_code(1) not_less_iff_gr_or_eq)
    with False show ?thesis by simp
  qed
  moreover have "\<lceil>real_of_int e / real_of_int t\<rceil> = - (- e div t)"
    by (rule ceiling_divide_eq_div)
  moreover have "- e div t = (if e mod t = 0 then - (e div t) else - (e div t) - 1)"
    using assms by (simp add: zdiv_zminus1_eq_if)
  ultimately show ?thesis by simp
qed

text \<open>
  Claim C6 (two-way split). When no thread binding follows the \<open>k\<close> loops to bind and
  their total extent \<open>E\<close> is above \<open>max_threads_num\<close> and at most
  \<open>max_blocks_num * max_threads_num\<close>, \<open>BindGPUIndex\<close> returns after a \<open>Fuse\<close>, one
  \<open>Split\<close> with the factors \<open>-1\<close> and \<open>max_threads_num\<close> that gives exactly two loops,
  and two \<open>Bind\<close>s. The outer loop has the extent \<open>E / max_threads_num\<close> rounded up and
  is bound to \<open>blockIdx.x\<close>; the inner one has the extent \<open>max_threads_num\<close> and is
  bound to \<open>threadIdx.x\<close>. For \<open>E = max_threads_num + 1\<close> the outer extent is 2.
  This is the claim as amended: the thread ceiling is a positive number, and the
  product of the two ceilings fits the 32 bits of an \<open>int\<close>, so that line 100
  compares \<open>E\<close> with the product itself.
\<close>

theorem two_way_split_branch:
  assumes "map_of (nests sch) blk = Some n" "wf_nest sch n" "0 < k" "k \<le> length (loops n)"
    "\<not> thread_claimed n k" "0 < T" "T < fused_extent n k" "fused_extent n k \<le> B * T"
    "B * T < 2 ^ 31"
  shows "returns (BindGPUIndex sch blk k B T)
       \<and> calls_after (BindGPUIndex sch blk k B T)
           = calls sch @ [FuseCall (take k (handles blk (loops n))) (blk, next_id sch),
                          SplitCall (blk, next_id sch) [- 1, T]
                            [(blk, next_id sch + 1), (blk, next_id sch + 2)],
                          BindCall (blk, next_id sch + 1) ''blockIdx.x'',
                          BindCall (blk, next_id sch + 2) ''threadIdx.x'']
       \<and> loops_after (BindGPUIndex sch blk k B T) blk
           = split_loop sch n k 0 \<lceil>real_of_int (fused_extent n k) / real_of_int T\<rceil> (Some ''blockIdx.x'')
             # split_loop sch n k 1 T (Some ''threadIdx.x'')
             # drop k (loops n)
       \<and> (fused_extent n k = T + 1 \<longrightarrow> \<lceil>real_of_int (fused_extent n k) / real_of_int T\<rceil> = 2)"
proof -
  let ?E = "fused_extent n k"
  let ?q = "\<lceil>real_of_int ?E / real_of_int T\<rceil>"
  let ?post = "drop k (loops n)"
  let ?i = "next_id sch"
  let ?F = "fused_loop_of sch n k"
  have "- (2 ^ 31) \<le> B * T" using assms(6,7,8) by simp
  from int32_mul_exact [OF this assms(9)] have m: "int32_mul B T = B * T" .
  from BindGPUIndex_fused [OF assms(1,2,3,4), of B T] assms(5,7,8) m obtain s1 where
    n1: "map_of (nests s1) blk = Some (n\<lparr>loops := ?F # ?post\<rparr>)"
    and i1: "next_id s1 = ?i + 1"
    and c1: "calls s1 = calls sch @ [FuseCall (take k (handles blk (loops n))) (blk, ?i)]"
    and eq: "BindGPUIndex sch blk k B T =
              (case Split s1 (blk, ?i) [- 1, T] of
                 Inl f \<Rightarrow> Inl f | Inr (splits, s2) \<Rightarrow> bind_splits2 s2 splits)"
    by auto
  have inf: "infer_factors (extent ?F) [- 1, T] = Inr [?q, T]"
    using infer_factors2 [OF assms(6), of ?E] ceil_div [OF assms(6), of ?E]
    by (simp add: fused_loop_of_def)
  have sl: "split_loops (next_id s1) (loop_var ?F) [?q, T]
            = [split_loop sch n k 0 ?q None, split_loop sch n k 1 T None]"
    by (simp add: split_loops2 split_loop_def i1 fused_loop_of_def)
  from Split_front [OF n1 _ inf] sl c1 i1 obtain s2 where
    sp: "Split s1 (blk, ?i) [- 1, T] = Inr ([(blk, ?i + 1), (blk, ?i + 2)], s2)"
    and n2: "map_of (nests s2) blk
             = Some (n\<lparr>loops := split_loop sch n k 0 ?q None # split_loop sch n k 1 T None # ?post\<rparr>)"
    and c2: "calls s2 = calls sch @ [FuseCall (take k (handles blk (loops n))) (blk, ?i),
               SplitCall (blk, ?i) [- 1, T] [(blk, ?i + 1), (blk, ?i + 2)]]"
    by (auto simp: handles_def split_loop_def fused_loop_of_def)
  have fr: "\<forall>x \<in> set ?post. loop_id x < ?i" by (rule fresh_drop [OF assms(2)])
  have fr0: "\<forall>x \<in> set [] \<union> set (split_loop sch n k 1 T None # ?post).
               loop_id x \<noteq> loop_id (split_loop sch n k 0 ?q None)"
    using fr by (auto simp: split_loop_def)
  from Bind_at [OF n2 _ fr0, of "''blockIdx.x''"] c2 obtain s3 where
    b3: "Bind s2 (blk, ?i + 1) ''blockIdx.x'' = Inr s3"
    and n3: "map_of (nests s3) blk
             = Some (n\<lparr>loops := [split_loop sch n k 0 ?q (Some ''blockIdx.x'')]
                                  @ split_loop sch n k 1 T None # ?post\<rparr>)"
    and c3: "calls s3 = calls sch @ [FuseCall (take k (handles blk (loops n))) (blk, ?i),
               SplitCall (blk, ?i) [- 1, T] [(blk, ?i + 1), (blk, ?i + 2)],
               BindCall (blk, ?i + 1) ''blockIdx.x'']"
    by (auto simp: split_loop_def)
  have fr1: "\<forall>x \<in> set [split_loop sch n k 0 ?q (Some ''blockIdx.x'')] \<union> set ?post.
               loop_id x \<noteq> loop_id (split_loop sch n k 1 T None)"
    using fr by (auto simp: split_loop_def)
  from Bind_at [OF n3 _ fr1, of "''threadIdx.x''"] c3 obtain s4 where
    b4: "Bind s3 (blk, ?i + 2) ''threadIdx.x'' = Inr s4"
    and n4: "map_of (nests s4) blk
             = Some (n\<lparr>loops := split_loop sch n k 0 ?q (Some ''blockIdx.x'')
                                  # split_loop sch n k 1 T (Some ''threadIdx.x'') # ?post\<rparr>)"
    and c4: "calls s4 = calls sch @ [FuseCall (take k (handles blk (loops n))) (blk, ?i),
               SplitCall (blk, ?i) [- 1, T] [(blk, ?i + 1), (blk, ?i + 2)],
               BindCall (blk, ?i + 1) ''blockIdx.x'', BindCall (blk, ?i + 2) ''threadIdx.x'']"
    by (auto simp: split_loop_def)
  have res: "BindGPUIndex sch blk k B T = Inr s4"
    using eq sp b3 b4 by (simp add: bind_splits2_def)
  have two: "?E = T + 1 \<longrightarrow> ?q = 2"
  proof
    assume e: "?E = T + 1"
    have "(T + 1 + T - 1) div T = 2" using assms(6) by simp
    with ceil_div [OF assms(6), of "T + 1"] e show "?q = 2" by simp
  qed
  show ?thesis using res n4 c4 two
    by (simp add: returns_def calls_after_def loops_after_def)
qed

theorem two_way_split_branch_witness:
  "map_of (nests (example_schedule 5 205 None)) ''B'' = Some (example_nest 5 205 None)
   \<and> wf_nest (example_schedule 5 205 None) (example_nest 5 205 None)
   \<and> (0::nat) < 2 \<and> 2 \<le> length (loops (example_nest 5 205 None))
   \<and> \<not> thread_claimed (example_nest 5 205 None) 2
   \<and> fused_extent (example_nest 5 205 None) 2 = 1024 + 1
   \<and> (256::int) * 1024 < 2 ^ 31
   \<and> returns (BindGPUIndex (example_schedule 5 205 None) ''B'' 2 256 1024)
   \<and> calls_after (BindGPUIndex (example_schedule 5 205 None) ''B'' 2 256 1024)
       = [FuseCall [(''B'', 0), (''B'', 1)] (''B'', 3),
          SplitCall (''B'', 3) [- 1, 1024] [(''B'', 4), (''B'', 5)],
          BindCall (''B'', 4) ''blockIdx.x'', BindCall (''B'', 5) ''threadIdx.x'']
   \<and> map loop_summary (loops_after (BindGPUIndex (example_schedule 5 205 None) ''B'' 2 256 1024) ''B'')
       = [(4, Some ''blockIdx.x'', 2), (5, Some ''threadIdx.x'', 1024), (2, None, 8)]"
  using two_way_split_branch [of "example_schedule 5 205 None" "''B''" "example_nest 5 205 None" 2 1024 256]
  by (simp add: example_schedule_def example_nest_def example_loop_def wf_nest_def
      thread_claimed_def is_gpu_thread_binded_def fused_extent_def fused_loop_of_def handles_def
      loop_summary_def split_loop_def)

text \<open>
  Claim C6 as it was stated asks nothing of the product of the ceilings. With 256
  blocks and \<open>2 ^ 23\<close> threads the product is \<open>2 ^ 31\<close>, which 32 bits do not hold:
  line 100 compares the extent with \<open>- 2 ^ 31\<close>. Two loops of extent 4096 have the
  total extent \<open>2 ^ 24\<close>, above the thread ceiling and within the product, and the
  fused loop is split three ways.
\<close>

theorem two_way_split_overflow_counterexample:
  "(8388608::int) < fused_extent (example_nest 4096 4096 None) 2
   \<and> fused_extent (example_nest 4096 4096 None) 2 \<le> 256 * 8388608
   \<and> calls_after (BindGPUIndex (example_schedule 4096 4096 None) ''B'' 2 256 8388608)
       = [FuseCall [(''B'', 0), (''B'', 1)] (''B'', 3),
          SplitCall (''B'', 3) [- 1, 256, 8388608] [(''B'', 4), (''B'', 5), (''B'', 6)],
          ReorderCall [(''B'', 5), (''B'', 6), (''B'', 4)],
          BindCall (''B'', 5) ''blockIdx.x'', BindCall (''B'', 6) ''threadIdx.x'']"
  by (simp add: BindGPUIndex_def GetLoops_def loop_at_def Fuse_def Split_def Bind_def Reorder_def
      bind_splits3_def infer_factors_def split_loops_def set_nest_def Let_def fused_var_def split_var_def
      example_schedule_def example_nest_def example_loop_def is_gpu_thread_binded_def
      calls_after_def fused_extent_def upt_rec int32_mul_def)




section \<open>The loop analysis\<close>

text \<open>
  Whenever the code returns a count, it is the count of the specification: the
  teller, where it returns, says whether the block has a reduction axis over the
  loop variable.
\<close>

lemma collect_uses_loop_var:
  "collect (uses_loop_var lv) xs = Inr (filter (spec_names_var lv) xs)"
proof (induction xs)
  case Nil
  then show ?case by simp
next
  case (Cons x xs)
  then show ?case by (cases x) (simp_all add: uses_loop_var_def spec_names_var_def)
qed

lemma reduce_axis_scan_Inr:
  "reduce_axis_scan lv ivs vals = Inr b \<Longrightarrow>
   b \<and> list_ex (\<lambda>p. spec_reduce_axis (fst p) \<and> list_ex (spec_names_var lv) (nodes (snd p))) (zip ivs vals)"
proof (induction lv ivs vals rule: reduce_axis_scan.induct)
  case (1 loop_var iter_var ivs binding bs)
  show ?case
  proof (cases "spec_reduce_axis iter_var \<and> filter (spec_names_var loop_var) (nodes binding) \<noteq> []")
    case True
    with "1.prems" show ?thesis
      by (auto simp: spec_reduce_axis_def CollectIRNodesWithoutTensor_def collect_uses_loop_var
          list_ex_iff filter_empty_conv)
  next
    case False
    with "1.prems" have "reduce_axis_scan loop_var ivs bs = Inr b"
      by (auto simp: spec_reduce_axis_def CollectIRNodesWithoutTensor_def collect_uses_loop_var
          split: if_splits)
    with "1.IH" False show ?thesis
      by (auto simp: spec_reduce_axis_def CollectIRNodesWithoutTensor_def collect_uses_loop_var)
  qed
qed simp_all

lemma teller_Inr:
  "used_for_reduce_axis_teller lv x = Inr b \<Longrightarrow> b = spec_reduces_over lv x"
proof (cases x)
  case (ScheduleBlockRealize vals sb)
  assume a: "used_for_reduce_axis_teller lv x = Inr b"
  show ?thesis
  proof (cases sb)
    case (ScheduleBlock ivs nm body)
    with a ScheduleBlockRealize have "reduce_axis_scan lv ivs vals = Inr b"
      by (simp add: used_for_reduce_axis_teller_def split: if_splits)
    from reduce_axis_scan_Inr [OF this] ScheduleBlockRealize ScheduleBlock show ?thesis
      by (simp add: spec_reduces_over_def)
  qed (use a ScheduleBlockRealize in \<open>simp_all add: used_for_reduce_axis_teller_def\<close>)
qed (simp_all add: used_for_reduce_axis_teller_def spec_reduces_over_def)

lemma collect_Inr:
  "collect teller xs = Inr r \<Longrightarrow> (\<And>x b. teller x = Inr b \<Longrightarrow> b = P x) \<Longrightarrow> r = filter P xs"
proof (induction xs arbitrary: r)
  case Nil
  then show ?case by simp
next
  case (Cons x xs)
  from Cons.prems(1) obtain b r' where
    b: "teller x = Inr b" and r': "collect teller xs = Inr r'" and r: "r = (if b then x # r' else r')"
    by (auto split: sum.splits)
  from Cons.IH [OF r' Cons.prems(2)] Cons.prems(2) [OF b] r show ?case by simp
qed

lemma IsSpatialLoop_Inr:
  assumes "IsSpatialLoop ft lv body = Inr b"
  shows "b = (ft = Serial \<and> \<not> list_ex (spec_reduces_over lv) (nodes body))"
proof (cases "ft = Serial")
  case False
  with assms show ?thesis by (simp add: IsSpatialLoop_def)
next
  case True
  with assms obtain r where
    r: "collect (used_for_reduce_axis_teller lv) (nodes body) = Inr r" and b: "b = (r = [])"
    by (auto simp: IsSpatialLoop_def CollectIRNodesWithoutTensor_def split: sum.splits)
  from collect_Inr [OF r, of "spec_reduces_over lv"] teller_Inr
  have "r = filter (spec_reduces_over lv) (nodes body)" by blast
  with b True show ?thesis by (auto simp: list_ex_iff filter_empty_conv)
qed

lemma count_loop_Inr:
  "count_loop cnt e = Inr n \<Longrightarrow> n = cnt + spec_count e"
proof (induction cnt e arbitrary: n rule: count_loop.induct)
  case (1 cnt ft b lv ext body)
  show ?case
  proof (cases "is_binded b")
    case True
    with "1.prems" show ?thesis by (simp add: spec_bindable_def)
  next
    case False
    with "1.prems" obtain sp where sp: "IsSpatialLoop ft lv body = Inr sp"
      by (auto split: sum.splits)
    note spec = IsSpatialLoop_Inr [OF sp]
    show ?thesis
    proof (cases sp)
      case False
      with "1.prems" \<open>\<not> is_binded b\<close> sp spec show ?thesis by (auto simp: spec_bindable_def)
    next
      case True
      with spec \<open>\<not> is_binded b\<close> have bind: "spec_bindable ft b lv body" by (simp add: spec_bindable_def)
      show ?thesis
      proof (cases body)
        case (Block stmts)
        show ?thesis
        proof (cases stmts)
          case Nil
          with "1.prems" \<open>\<not> is_binded b\<close> sp True Block bind show ?thesis by simp
        next
          case (Cons s rest)
          show ?thesis
          proof (cases rest)
            case Nil
            with "1.prems" \<open>\<not> is_binded b\<close> sp True Block Cons
            have rec: "count_loop (cnt + 1) s = Inr n" by simp
            have spT: "sp = True" using True by simp
            from "1.IH" [OF \<open>\<not> is_binded b\<close> sp spT Block \<open>stmts = s # rest\<close> Nil rec]
            have "n = cnt + 1 + spec_count s" .
            with bind Block Cons Nil show ?thesis by simp
          next
            case (Cons s' rest')
            with "1.prems" \<open>\<not> is_binded b\<close> sp True Block \<open>stmts = s # rest\<close> bind show ?thesis by simp
          qed
        qed
      qed (use "1.prems" \<open>\<not> is_binded b\<close> sp True in simp_all)
    qed
  qed
qed simp_all

lemma CountLoopCanBinded_agrees:
  "CountLoopCanBinded (Some e) = Inr n \<Longrightarrow> n = spec_count e"
  using count_loop_Inr [of 0 e n] by (simp add: CountLoopCanBinded_def)

text \<open>
  Claim C3 (spatial-loop counting) gives one serial, unbound loop around an
  elementwise block the count 1. The code gives no count there: the teller of
  \<open>IsSpatialLoop\<close> finds the block, goes through its iteration variables, none of
  which is a reduction axis, and reaches the end of the lambda, where no \<open>return\<close>
  statement stands.
\<close>

theorem elementwise_loop_no_count:
  "CountLoopCanBinded (Some elementwise_loop) = Inl NoReturnValue \<and> spec_count elementwise_loop = 1"
  by (simp add: CountLoopCanBinded_def elementwise_loop_def elementwise_block_def is_binded_def
      IsSpatialLoop_def CollectIRNodesWithoutTensor_def used_for_reduce_axis_teller_def
      spec_bindable_def spec_reduces_over_def spec_reduce_axis_def spec_names_var_def)

section \<open>The rule\<close>

lemma collect_applicable_filter:
  "\<forall>b \<in> set bs. returns (block_count sch b) \<Longrightarrow>
   collect_applicable sch bs acc = Inr (acc @ filter (positive_count sch) bs)"
proof (induction bs arbitrary: acc)
  case Nil
  then show ?case by simp
next
  case (Cons b bs)
  from Cons.prems obtain c where c: "block_count sch b = Inr c"
    by (cases "block_count sch b") (auto simp: returns_def)
  then obtain ls where ls: "GetLoops sch b = Inr ls" "count_first_loop sch ls = Inr c"
    by (auto simp: block_count_def split: sum.splits)
  from Cons.prems have "\<forall>b \<in> set bs. returns (block_count sch b)" by simp
  from Cons.IH [OF this] ls c show ?case
    by (simp add: positive_count_def)
qed

lemma GetBlock_of_count:
  "block_count sch blk = Inr c \<Longrightarrow> GetBlock sch blk = Inr blk"
  by (auto simp: block_count_def GetLoops_def GetBlock_def split: sum.splits option.splits
      dest: map_of_SomeD intro: rev_image_eqI)

lemma AnalyseApplyType_count:
  assumes "state < length store" "block_count (ir_schedule (store ! state)) block_name = Inr cnt"
  shows "AnalyseApplyType rule store state block_name
         = Inr (if cnt > 0 then kApplyAndPruneOtherRules else kCannotApply)"
proof -
  from assms(2) obtain ls where
    "GetLoops (ir_schedule (store ! state)) block_name = Inr ls"
    "count_first_loop (ir_schedule (store ! state)) ls = Inr cnt"
    by (auto simp: block_count_def split: sum.splits)
  with assms(1) GetBlock_of_count [OF assms(2)] show ?thesis
    by (simp add: AnalyseApplyType_def)
qed

lemma Init_fresh:
  assumes "applicable_schedule_blocks rule = []" "\<forall>b \<in> set (GetAllBlocks sch). returns (block_count sch b)"
  shows "Init rule sch
         = Inr (if filter (positive_count sch) (GetAllBlocks sch) = [] then kCannotApply
                 else kApplyAndPruneOtherRules,
                rule\<lparr>applicable_schedule_blocks := filter (positive_count sch) (GetAllBlocks sch),
                     num_applicable := length (filter (positive_count sch) (GetAllBlocks sch))\<rparr>)"
  using collect_applicable_filter [OF assms(2), of "[]"] assms(1)
  by (simp add: Init_def)

lemmas example_defs = example_store_def example_rule_def reduce_loop_def two_loops_def example_loop_def
  reduction_block_def malformed_block_def

lemmas count_defs = block_count_def positive_count_def GetLoops_def GetAllBlocks_def GetBlock_def
  count_first_loop_def As_For_def for_node_def CountLoopCanBinded_def is_binded_def IsSpatialLoop_def
  CollectIRNodesWithoutTensor_def used_for_reduce_axis_teller_def uses_loop_var_def returns_def

text \<open>
  Claim C8 (applicability queries) has \<open>Init\<close> and \<open>AnalyseApplyType\<close> never fail.
  On an elementwise block under two serial loops both reach the end of the teller
  lambda of \<open>IsSpatialLoop\<close> without a \<open>return\<close>, and on a block whose loop list is
  empty both read \<open>all_loops[0]\<close> beyond the end of the vector.
\<close>

theorem applicability_queries_fail:
  "AnalyseApplyType example_rule (example_store two_loops [elementwise_block]) 0 ''B'' = Inl NoReturnValue
   \<and> Init example_rule (ir_schedule (example_store two_loops [elementwise_block] ! 0)) = Inl NoReturnValue
   \<and> AnalyseApplyType example_rule (example_store [] [elementwise_block]) 0 ''B'' = Inl OutOfRange
   \<and> Init example_rule (ir_schedule (example_store [] [elementwise_block] ! 0)) = Inl OutOfRange"
  by (simp add: AnalyseApplyType_def Init_def example_defs count_defs elementwise_block_def)

lemma ApplyOnBlock_result:
  assumes "ApplyOnBlock rule store state block_name = Inr (new_states, store')"
  shows "state < length store
       \<and> new_states = [length store]
       \<and> (\<exists>cnt sch'. block_count (ir_schedule (store ! state)) block_name = Inr cnt
            \<and> BindGPUIndex (ir_schedule (store ! state)) block_name cnt kMaxThreadBlocks
                 (max_num_threads rule) = Inr sch'
            \<and> store' = store @ [(store ! state)\<lparr>ir_schedule := sch'\<rparr>])"
proof -
  from assms have st: "state < length store"
    by (auto simp: ApplyOnBlock_def Copy_def split: if_splits)
  then have cp: "Copy store state = Inr (length store, store @ [store ! state])"
    by (simp add: Copy_def)
  have nth: "(store @ [store ! state]) ! length store = store ! state"
    "(store @ [store ! state]) ! state = store ! state"
    using st by (simp_all add: nth_append)
  from assms cp nth obtain ls cnt sch' where
    gb: "GetBlock (ir_schedule (store ! state)) block_name = Inr block_name"
    and gl: "GetLoops (ir_schedule (store ! state)) block_name = Inr ls"
    and cf: "count_first_loop (ir_schedule (store ! state)) ls = Inr cnt"
    and bg: "BindGPUIndex (ir_schedule (store ! state)) block_name cnt kMaxThreadBlocks
               (max_num_threads rule) = Inr sch'"
    and res: "new_states = [length store]"
      "store' = (store @ [store ! state])[length store := (store ! state)\<lparr>ir_schedule := sch'\<rparr>]"
    by (auto simp: ApplyOnBlock_def GetBlock_def split: sum.splits if_splits)
  from gl cf have "block_count (ir_schedule (store ! state)) block_name = Inr cnt"
    by (simp add: block_count_def)
  with st bg res show ?thesis by simp
qed

lemma ApplyOnBlock_count:
  assumes "state < length store" "block_count (ir_schedule (store ! state)) block_name = Inr cnt"
    "BindGPUIndex (ir_schedule (store ! state)) block_name cnt kMaxThreadBlocks (max_num_threads rule)
       = Inr sch'"
  shows "ApplyOnBlock rule store state block_name
         = Inr ([length store], store @ [(store ! state)\<lparr>ir_schedule := sch'\<rparr>])"
proof -
  from assms(2) obtain ls where
    gl: "GetLoops (ir_schedule (store ! state)) block_name = Inr ls"
    and cf: "count_first_loop (ir_schedule (store ! state)) ls = Inr cnt"
    by (auto simp: block_count_def split: sum.splits)
  have nth: "(store @ [store ! state]) ! length store = store ! state"
    "(store @ [store ! state]) ! state = store ! state"
    using assms(1) by (simp_all add: nth_append)
  show ?thesis
    using assms(1,3) gl cf GetBlock_of_count [OF assms(2)] nth
    by (simp add: ApplyOnBlock_def Copy_def)
qed

lemmas bind_defs = BindGPUIndex_def loop_at_def Fuse_def Split_def Bind_def Reorder_def
  bind_splits2_def bind_splits3_def infer_factors_def split_loops_def set_nest_def Let_def
  fused_var_def split_var_def is_gpu_thread_binded_def kMaxThreadBlocks_def

lemma example_block_count:
  "block_count (ir_schedule (example_store two_loops [] ! 0)) ''B'' = Inr 2"
  by (simp add: example_defs count_defs)

lemma example_bind:
  "BindGPUIndex (ir_schedule (example_store two_loops [] ! 0)) ''B'' 2 kMaxThreadBlocks
     (max_num_threads example_rule) = Inr (ir_schedule example_applied)"
  by (simp add: example_defs bind_defs GetLoops_def example_applied_def)

lemma example_apply_on_block:
  "ApplyOnBlock example_rule (example_store two_loops []) 0 ''B''
     = Inr ([1], example_store two_loops [] @ [example_applied])"
proof -
  have "(example_store two_loops [] ! 0)\<lparr>ir_schedule := ir_schedule example_applied\<rparr> = example_applied"
    by (simp add: example_store_def example_applied_def)
  with ApplyOnBlock_count [OF _ example_block_count example_bind] show ?thesis
    by (simp add: example_store_def)
qed

text \<open>
  Where \<open>ApplyOnBlock\<close> returns, every search state that was in the store is what it
  was, and the one state returned is a new one whose schedule \<open>BindGPUIndex\<close> has
  made of a copy.
\<close>

lemma ApplyOnBlock_isolated:
  assumes "ApplyOnBlock rule store state block_name = Inr (new_states, store')"
  shows "state < length store
       \<and> take (length store) store' = store
       \<and> store' ! state = store ! state
       \<and> new_states = [length store]
       \<and> length store' = Suc (length store)
       \<and> trace (store' ! length store) = trace (store ! state)
       \<and> (\<exists>cnt. block_count (ir_schedule (store ! state)) block_name = Inr cnt
            \<and> BindGPUIndex (ir_schedule (store ! state)) block_name cnt kMaxThreadBlocks
                 (max_num_threads rule) = Inr (ir_schedule (store' ! length store)))"
  using ApplyOnBlock_result [OF assms] by (auto simp: nth_append)

text \<open>
  Claim C9 (\<open>ApplyOnBlock\<close> isolation) has \<open>ApplyOnBlock\<close> return new search states
  for an applicable block. The elementwise block under two serial loops is
  applicable, the count of the specification being 2; \<open>ApplyOnBlock\<close> makes the
  copy and then has no count to pass to \<open>BindGPUIndex\<close>: it reaches the end of the
  teller lambda of \<open>IsSpatialLoop\<close> without a \<open>return\<close>.
\<close>

theorem apply_on_block_no_return:
  "map_option spec_count (As_For (ir_schedule (example_store two_loops [elementwise_block] ! 0)) (''B'', 0))
     = Some 2
   \<and> ApplyOnBlock example_rule (example_store two_loops [elementwise_block]) 0 ''B'' = Inl NoReturnValue"
  by (simp add: ApplyOnBlock_def Copy_def example_defs count_defs elementwise_block_def
      spec_bindable_def spec_reduces_over_def spec_reduce_axis_def spec_names_var_def)

lemma collect_applicable_result:
  "collect_applicable sch bs acc = Inr r \<Longrightarrow> r = acc @ filter (positive_count sch) bs"
proof (induction bs arbitrary: acc)
  case Nil
  then show ?case by simp
next
  case (Cons b bs)
  from Cons.prems obtain ls c where
    ls: "GetLoops sch b = Inr ls" "count_first_loop sch ls = Inr c"
    and rec: "collect_applicable sch bs (if c > 0 then acc @ [b] else acc) = Inr r"
    by (auto split: sum.splits)
  from ls have "positive_count sch b = (c > 0)"
    by (simp add: positive_count_def block_count_def)
  with Cons.IH [OF rec] show ?case by simp
qed

lemma Init_type:
  assumes "Init rule sch = Inr (t, rule')"
  shows "t \<noteq> kApply"
    and "\<exists>b \<in> set (GetAllBlocks sch). positive_count sch b \<Longrightarrow> t = kApplyAndPruneOtherRules"
proof -
  from assms obtain r where
    r: "collect_applicable sch (GetAllBlocks sch) (applicable_schedule_blocks rule) = Inr r"
    and t: "t = (if length r > 0 then kApplyAndPruneOtherRules else kCannotApply)"
    by (auto simp: Init_def split: sum.splits)
  from t show "t \<noteq> kApply" by simp
  assume "\<exists>b \<in> set (GetAllBlocks sch). positive_count sch b"
  then have "filter (positive_count sch) (GetAllBlocks sch) \<noteq> []"
    by (simp add: filter_empty_conv)
  with collect_applicable_result [OF r] t show "t = kApplyAndPruneOtherRules" by simp
qed

lemma AnalyseApplyType_type:
  "AnalyseApplyType rule store state block_name \<noteq> Inr kApply"
  by (auto simp: AnalyseApplyType_def split: sum.splits)

lemma Apply_count:
  assumes "0 \<le> index" "nat index < length (applicable_schedule_blocks rule)"
    "block_count sch (applicable_schedule_blocks rule ! nat index) = Inr cnt"
  shows "Apply rule sch index
         = BindGPUIndex sch (applicable_schedule_blocks rule ! nat index) cnt 256 (max_num_threads rule)"
  using assms
  by (auto simp: Apply_def Let_def block_count_def kMaxThreadBlocks_def split: sum.splits)

lemma example_init:
  "Init example_rule (ir_schedule (example_store two_loops [] ! 0))
     = Inr (kApplyAndPruneOtherRules,
            \<lparr>applicable_schedule_blocks = [''B''], num_applicable = 1, max_num_threads = 1024\<rparr>)"
  by (simp add: Init_def example_defs count_defs)

text \<open>
  Claim C10 (block ceiling, apply type). \<open>kMaxThreadBlocks\<close> is 256. \<open>Apply\<close> and
  \<open>ApplyOnBlock\<close> call \<open>BindGPUIndex\<close> with the count of the block's first loop, the
  block ceiling 256 whatever the target, and the target's \<open>max_num_threads\<close> as the
  thread ceiling. \<open>Init\<close> and \<open>AnalyseApplyType\<close> never return \<open>kApply\<close>: where a
  block has a positive count, they return \<open>kApplyAndPruneOtherRules\<close>.
\<close>

theorem block_ceiling_and_apply_type:
  "kMaxThreadBlocks = 256
   \<and> (0 \<le> index \<and> nat index < length (applicable_schedule_blocks rule)
        \<and> block_count sch (applicable_schedule_blocks rule ! nat index) = Inr cnt
      \<longrightarrow> Apply rule sch index
           = BindGPUIndex sch (applicable_schedule_blocks rule ! nat index) cnt 256 (max_num_threads rule))
   \<and> (state < length store \<and> block_count (ir_schedule (store ! state)) block_name = Inr cnt'
        \<and> BindGPUIndex (ir_schedule (store ! state)) block_name cnt' 256 (max_num_threads rule) = Inr sch'
      \<longrightarrow> ApplyOnBlock rule store state block_name
           = Inr ([length store], store @ [(store ! state)\<lparr>ir_schedule := sch'\<rparr>]))
   \<and> (Init rule sch = Inr (t, rule')
      \<longrightarrow> t \<noteq> kApply
          \<and> ((\<exists>b \<in> set (GetAllBlocks sch). positive_count sch b) \<longrightarrow> t = kApplyAndPruneOtherRules))
   \<and> AnalyseApplyType rule store state block_name \<noteq> Inr kApply
   \<and> (state < length store \<and> positive_count (ir_schedule (store ! state)) block_name
      \<longrightarrow> AnalyseApplyType rule store state block_name = Inr kApplyAndPruneOtherRules)"
proof -
  have a: "0 \<le> index \<and> nat index < length (applicable_schedule_blocks rule)
        \<and> block_count sch (applicable_schedule_blocks rule ! nat index) = Inr cnt
      \<longrightarrow> Apply rule sch index
           = BindGPUIndex sch (applicable_schedule_blocks rule ! nat index) cnt 256 (max_num_threads rule)"
    using Apply_count by blast
  have b: "state < length store \<and> block_count (ir_schedule (store ! state)) block_name = Inr cnt'
        \<and> BindGPUIndex (ir_schedule (store ! state)) block_name cnt' 256 (max_num_threads rule) = Inr sch'
      \<longrightarrow> ApplyOnBlock rule store state block_name
           = Inr ([length store], store @ [(store ! state)\<lparr>ir_schedule := sch'\<rparr>])"
    using ApplyOnBlock_count [of state store block_name cnt' rule sch']
    by (simp add: kMaxThreadBlocks_def)
  have c: "Init rule sch = Inr (t, rule')
      \<longrightarrow> t \<noteq> kApply
          \<and> ((\<exists>b \<in> set (GetAllBlocks sch). positive_count sch b) \<longrightarrow> t = kApplyAndPruneOtherRules)"
    using Init_type [of rule sch t rule'] by blast
  have d: "state < length store \<and> positive_count (ir_schedule (store ! state)) block_name
      \<longrightarrow> AnalyseApplyType rule store state block_name = Inr kApplyAndPruneOtherRules"
  proof
    assume h: "state < length store \<and> positive_count (ir_schedule (store ! state)) block_name"
    then obtain n where n: "block_count (ir_schedule (store ! state)) block_name = Inr n" "n > 0"
      by (auto simp: positive_count_def split: sum.splits)
    from AnalyseApplyType_count [of state store block_name n rule] h n
    show "AnalyseApplyType rule store state block_name = Inr kApplyAndPruneOtherRules" by simp
  qed
  from a b c d AnalyseApplyType_type [of rule store state block_name] show ?thesis
    by (simp only: kMaxThreadBlocks_def simp_thms)
qed

theorem block_ceiling_and_apply_type_witness:
  "(0::int) \<le> 0
   \<and> block_count (ir_schedule (example_store two_loops [] ! 0)) ''B'' = Inr 2
   \<and> positive_count (ir_schedule (example_store two_loops [] ! 0)) ''B''
   \<and> (\<exists>b \<in> set (GetAllBlocks (ir_schedule (example_store two_loops [] ! 0))).
         positive_count (ir_schedule (example_store two_loops [] ! 0)) b)
   \<and> Apply \<lparr>applicable_schedule_blocks = [''B''], num_applicable = 1, max_num_threads = 1024\<rparr>
        (ir_schedule (example_store two_loops [] ! 0)) 0
       = Inr (ir_schedule example_applied)
   \<and> ApplyOnBlock \<lparr>applicable_schedule_blocks = [''B''], num_applicable = 1, max_num_threads = 1024\<rparr>
        (example_store two_loops []) 0 ''B''
       = Inr ([1], example_store two_loops [] @ [example_applied])
   \<and> Init example_rule (ir_schedule (example_store two_loops [] ! 0))
       = Inr (kApplyAndPruneOtherRules,
              \<lparr>applicable_schedule_blocks = [''B''], num_applicable = 1, max_num_threads = 1024\<rparr>)
   \<and> AnalyseApplyType \<lparr>applicable_schedule_blocks = [''B''], num_applicable = 1, max_num_threads = 1024\<rparr>
        (example_store two_loops []) 0 ''B'' = Inr kApplyAndPruneOtherRules"
proof -
  let ?r = "\<lparr>applicable_schedule_blocks = [''B''], num_applicable = 1, max_num_threads = 1024\<rparr>"
  let ?s = "ir_schedule (example_store two_loops [] ! 0)"
  have pc: "positive_count ?s ''B''"
    using example_block_count by (simp add: positive_count_def)
  have bg: "BindGPUIndex ?s ''B'' 2 256 1024 = Inr (ir_schedule example_applied)"
    using example_bind by (simp add: kMaxThreadBlocks_def example_rule_def)
  have ap: "(example_store two_loops [] ! 0)\<lparr>ir_schedule := ir_schedule example_applied\<rparr> = example_applied"
    by (simp add: example_store_def example_applied_def)
  have len: "length (example_store two_loops []) = 1" by (simp add: example_store_def)
  have pe: "\<exists>b \<in> set (GetAllBlocks ?s). positive_count ?s b"
    using pc by (simp add: GetAllBlocks_def example_store_def)
  from block_ceiling_and_apply_type [of 0 ?r ?s 2 0 "example_store two_loops []" "''B''" 2
      "ir_schedule example_applied" kApplyAndPruneOtherRules ?r]
    block_ceiling_and_apply_type [of 0 example_rule ?s 2 0 "example_store two_loops []" "''B''" 2
      "ir_schedule example_applied" kApplyAndPruneOtherRules ?r]
    example_block_count pc pe bg ap len example_init
  show ?thesis by simp
qed

section \<open>The serialized trace\<close>

lemma fold_update_append:
  "distinct (map fst es) \<Longrightarrow> \<forall>e \<in> set es. fst e \<notin> fst ` set acc \<Longrightarrow>
   fold (\<lambda>e m. AList.update (fst e) (snd e) m) es acc = acc @ es"
proof (induction es arbitrary: acc)
  case Nil
  then show ?case by simp
next
  case (Cons e es)
  have u: "AList.update (fst e) (snd e) acc = acc @ [e]"
    using Cons.prems(2) by (induction acc) auto
  have "\<forall>x \<in> set es. fst x \<notin> fst ` set (acc @ [e])"
    using Cons.prems by (auto simp: image_iff)
  with Cons.IH [of "acc @ [e]"] Cons.prems(1) u show ?case by simp
qed

lemma insert_entries_id:
  "distinct (map fst es) \<Longrightarrow> insert_entries es = es"
  using fold_update_append [of es "[]"] by (simp add: insert_entries_def)

lemma step_round_trip:
  "unique_keys s \<Longrightarrow> step_of_proto (step_to_proto s) = s"
  by (simp add: unique_keys_def step_of_proto_def step_to_proto_def insert_entries_id)

text \<open>
  Claim C2 (serialization round trip). For every descriptor whose steps hold one
  entry for a key in each of their maps, reading back what \<open>ToProto\<close> has written
  gives the same steps, in the same order, with the same inputs, outputs and
  attribute values of whatever variant; the name table of the descriptor read back
  is empty, as the serialized form does not hold it. The witness takes the empty
  descriptor and a step with an attribute of every variant.
\<close>

theorem serialization_round_trip:
  assumes "list_all unique_keys (steps desc)"
  shows "steps (FromProto (ToProto desc)) = steps desc
       \<and> map step_type (steps (FromProto (ToProto desc))) = map step_type (steps desc)
       \<and> name2expr (FromProto (ToProto desc)) = Map.empty"
proof -
  have "map (step_of_proto \<circ> step_to_proto) (steps desc) = steps desc"
    using assms by (induction "steps desc" arbitrary: desc) (auto simp: step_round_trip list_all_iff map_idI)
  then show ?thesis by (simp add: FromProto_def ToProto_def)
qed

theorem serialization_round_trip_witness:
  "list_all unique_keys [all_variants_step] \<and> list_all unique_keys []
   \<and> steps (FromProto (ToProto \<lparr>steps = [all_variants_step], name2expr = Map.empty\<rparr>)) = [all_variants_step]
   \<and> FromProto (ToProto \<lparr>steps = [], name2expr = Map.empty\<rparr>) = \<lparr>steps = [], name2expr = Map.empty\<rparr>"
  using serialization_round_trip [of "\<lparr>steps = [all_variants_step], name2expr = Map.empty\<rparr>"]
    serialization_round_trip [of "\<lparr>steps = [], name2expr = Map.empty\<rparr>"]
  by (simp add: unique_keys_def all_variants_step_def FromProto_def ToProto_def)

section \<open>Replay of a recorded descriptor\<close>

subsection \<open>The thunks of the registry\<close>

lemma invoke_GetAllBlocks:
  "invoke ''GetAllBlocks'' s ins ats = Inr (map BlockRef (GetAllBlocks s), s)"
  by (simp add: invoke_def)

lemma invoke_GetLoops:
  "invoke ''GetLoops'' s ins ats =
     (case single_block ins ''block'' of
        Inl e \<Rightarrow> Inl e
      | Inr b \<Rightarrow> map_sum id (\<lambda>ls. (map LoopRef ls, s)) (lift_fault (GetLoops s b)))"
  by (simp add: invoke_def)

lemma invoke_GetLoopsWithName:
  "invoke ''GetLoopsWithName'' s ins ats =
     (case string_attr ats ''block_name'' of
        Inl e \<Rightarrow> Inl e
      | Inr nm \<Rightarrow>
          (case lift_fault (GetBlock s nm) of
             Inl e \<Rightarrow> Inl e
           | Inr b \<Rightarrow> map_sum id (\<lambda>ls. (map LoopRef ls, s)) (lift_fault (GetLoops s b))))"
  by (simp add: invoke_def)

lemma invoke_Fuse:
  "invoke ''Fuse'' s ins ats =
     (case input_slot ins ''loops'' of
        Inl e \<Rightarrow> Inl e
      | Inr hs \<Rightarrow>
          (case loop_handles hs of
             Inl e \<Rightarrow> Inl e
           | Inr ls \<Rightarrow> map_sum id (\<lambda>(f, s). ([LoopRef f], s)) (lift_fault (Fuse s ls))))"
  by (simp add: invoke_def)

lemma invoke_Split:
  "invoke ''Split'' s ins ats =
     (case single_loop ins ''loop'' of
        Inl e \<Rightarrow> Inl e
      | Inr l \<Rightarrow>
          (case ints_attr ats ''factors'' of
             Inl e \<Rightarrow> Inl e
           | Inr fs \<Rightarrow> map_sum id (\<lambda>(ls, s). (map LoopRef ls, s)) (lift_fault (Split s l fs))))"
  by (simp add: invoke_def)

lemma invoke_Reorder:
  "invoke ''Reorder'' s ins ats =
     (case input_slot ins ''loops'' of
        Inl e \<Rightarrow> Inl e
      | Inr hs \<Rightarrow>
          (case loop_handles hs of
             Inl e \<Rightarrow> Inl e
           | Inr ls \<Rightarrow> map_sum id (\<lambda>s. ([], s)) (lift_fault (Reorder s ls))))"
  by (simp add: invoke_def)

lemma invoke_Bind:
  "invoke ''Bind'' s ins ats =
     (case single_loop ins ''loop'' of
        Inl e \<Rightarrow> Inl e
      | Inr l \<Rightarrow>
          (case string_attr ats ''thread_axis'' of
             Inl e \<Rightarrow> Inl e
           | Inr axis \<Rightarrow> map_sum id (\<lambda>s. ([], s)) (lift_fault (Bind s l axis))))"
  by (simp add: invoke_def)

lemma invoke_other:
  "kind \<notin> {''GetAllBlocks'', ''GetLoops'', ''GetLoopsWithName'', ''Fuse'', ''Split'', ''Reorder'', ''Bind''}
   \<Longrightarrow> invoke kind s ins ats = Inl UnknownOperationKind"
  by (simp add: invoke_def)

subsection \<open>Replay on the schedule of the recording\<close>

lemma expr_name_inj: "expr_name a = expr_name b \<Longrightarrow> a = b"
proof -
  assume "expr_name a = expr_name b"
  then have "length (expr_name a) = length (expr_name b)" by simp
  then show ?thesis by (simp add: expr_name_def)
qed

lemma names_for_resolve:
  "names_for table hs = Inr ns \<Longrightarrow> distinct (map fst table) \<Longrightarrow> resolve table ns = Inr hs"
proof (induction hs arbitrary: ns)
  case Nil
  then show ?case by simp
next
  case (Cons h hs)
  from Cons.prems(1) obtain e ns' where
    e: "find (\<lambda>e. snd e = h) table = Some e" and ns': "names_for table hs = Inr ns'"
    and ns: "ns = fst e # ns'"
    by (auto split: option.splits sum.splits)
  from e have "e \<in> set table" "snd e = h"
    by (auto simp: find_Some_iff)
  with Cons.prems(2) have "map_of table (fst e) = Some h"
    by (metis map_of_is_SomeI prod.collapse)
  with Cons.IH [OF ns' Cons.prems(2)] ns show ?case by simp
qed

lemma name_inputs_resolve:
  "name_inputs table ins = Inr named \<Longrightarrow> distinct (map fst table) \<Longrightarrow>
   resolve_inputs table named = Inr ins"
proof (induction ins arbitrary: named)
  case Nil
  then show ?case by simp
next
  case (Cons a ins)
  obtain slot hs where a: "a = (slot, hs)" by (cases a)
  from Cons.prems(1) a obtain ns r where
    ns: "names_for table hs = Inr ns" and r: "name_inputs table ins = Inr r"
    and named: "named = (slot, ns) # r"
    by (auto split: sum.splits)
  from names_for_resolve [OF ns Cons.prems(2)] Cons.IH [OF r Cons.prems(2)] named a
  show ?case by simp
qed

lemma loop_handles_LoopRef: "loop_handles (map LoopRef ls) = Inr ls"
  by (induction ls) simp_all

lemma invoke_op:
  "invoke (op_kind op) s (op_inputs op) (op_attrs op) = lift_fault (apply_op s op)"
proof (cases op)
  case OpGetAllBlocks
  then show ?thesis by (simp add: invoke_GetAllBlocks lift_fault_def)
next
  case (OpGetLoops b)
  then show ?thesis
    by (cases "GetLoops s b") (simp_all add: invoke_GetLoops single_block_def input_slot_def lift_fault_def)
next
  case (OpGetLoopsWithName nm)
  then show ?thesis
    by (cases "GetBlock s nm"; cases "GetLoops s nm")
       (auto simp: invoke_GetLoopsWithName string_attr_def lift_fault_def GetBlock_def split: if_splits)
next
  case (OpFuse ls)
  then show ?thesis
    by (cases "Fuse s ls")
       (simp_all add: invoke_Fuse input_slot_def loop_handles_LoopRef lift_fault_def case_prod_beta)
next
  case (OpSplit l fs)
  then show ?thesis
    by (cases "Split s l (map sint fs)")
       (simp_all add: invoke_Split single_loop_def input_slot_def ints_attr_def lift_fault_def case_prod_beta)
next
  case (OpReorder ls)
  then show ?thesis
    by (cases "Reorder s ls")
       (simp_all add: invoke_Reorder input_slot_def loop_handles_LoopRef lift_fault_def)
next
  case (OpBind l axis)
  then show ?thesis
    by (cases "Bind s l axis")
       (simp_all add: invoke_Bind single_loop_def input_slot_def string_attr_def lift_fault_def)
qed

lemma table_ok_extend:
  assumes "table_ok table"
  shows "table_ok (zip (fresh_names table (length outs)) outs @ table)"
proof -
  let ?new = "fresh_names table (length outs)"
  have len: "length ?new = length outs" by (simp add: fresh_names_def)
  have fst_zip: "map fst (zip ?new outs) = ?new" using len by (simp add: map_fst_zip)
  have inj: "inj_on (\<lambda>j. expr_name (length table + j)) A" for A
  proof (rule inj_onI)
    fix x y
    assume "expr_name (length table + x) = expr_name (length table + y)"
    from expr_name_inj [OF this] show "x = y" by simp
  qed
  have d_new: "distinct ?new"
    unfolding fresh_names_def by (simp add: distinct_map inj)
  from assms have old: "fst ` set table \<subseteq> expr_name ` {..< length table}" and d_old: "distinct (map fst table)"
    by (simp_all add: table_ok_def)
  have disj: "set ?new \<inter> fst ` set table = {}"
  proof (rule ccontr)
    assume "set ?new \<inter> fst ` set table \<noteq> {}"
    then obtain x where x1: "x \<in> set ?new" and x2: "x \<in> fst ` set table" by blast
    from x2 old obtain k where k: "k < length table" "x = expr_name k" by blast
    from x1 obtain j where j: "x = expr_name (length table + j)"
      unfolding fresh_names_def by auto
    from k(2) j have "expr_name k = expr_name (length table + j)" by simp
    from expr_name_inj [OF this] k(1) show False by simp
  qed
  have sub: "set ?new \<subseteq> expr_name ` {..< length outs + length table}"
  proof
    fix x assume "x \<in> set ?new"
    then obtain j where j: "j < length outs" "x = expr_name (length table + j)"
      unfolding fresh_names_def by auto
    then have "length table + j \<in> {..< length outs + length table}" by simp
    with j(2) show "x \<in> expr_name ` {..< length outs + length table}" by blast
  qed
  have "{..< length table} \<subseteq> {..< length outs + length table}" by auto
  then have "expr_name ` {..< length table} \<subseteq> expr_name ` {..< length outs + length table}"
    by (rule image_mono)
  with old have sub2: "fst ` set table \<subseteq> expr_name ` {..< length outs + length table}" by simp
  have img: "fst ` set (zip ?new outs) = set ?new"
    using fst_zip by (metis set_map)
  have "distinct (map fst (zip ?new outs @ table))"
    using d_new d_old disj fst_zip by simp
  moreover have "fst ` set (zip ?new outs @ table) \<subseteq> expr_name ` {..< length (zip ?new outs @ table)}"
    using img sub sub2 len by (simp add: image_Un)
  ultimately show ?thesis unfolding table_ok_def by blast
qed

lemma record_step:
  assumes "lift_fault (apply_op s op) = Inr (outs, s')" "Append sts table op outs = Inr (sts', table')"
    "table_ok table"
  shows "\<exists>st. sts' = sts @ [st] \<and> replay_step s table st = Inr (outs, s', table') \<and> table_ok table'"
proof -
  from assms(2) obtain named where
    named: "name_inputs table (op_inputs op) = Inr named"
    and sts': "sts' = sts @ [\<lparr>step_type = op_kind op, inputs = named,
                 outputs = [(''out'', fresh_names table (length outs))], attrs = op_attrs op\<rparr>]"
    and table': "table' = zip (fresh_names table (length outs)) outs @ table"
    by (auto simp: Append_def split: sum.splits)
  let ?st = "\<lparr>step_type = op_kind op, inputs = named,
               outputs = [(''out'', fresh_names table (length outs))], attrs = op_attrs op\<rparr>"
  from assms(3) have d: "distinct (map fst table)" by (simp add: table_ok_def)
  have "replay_step s table ?st = Inr (outs, s', table')"
    using name_inputs_resolve [OF named d] assms(1) table'
    by (simp add: replay_step_def invoke_op fresh_names_def)
  with sts' table' table_ok_extend [OF assms(3), of outs] show ?thesis by blast
qed

lemma record_ops_replay:
  "record_ops s sts table ops = Inr (sts', table', s') \<Longrightarrow> table_ok table \<Longrightarrow>
   \<exists>new live'. sts' = sts @ new \<and> replay_steps live s table new = Inr (live', s')"
proof (induction ops arbitrary: s sts table live)
  case Nil
  then show ?case by simp
next
  case (Cons op ops)
  from Cons.prems(1) obtain outs s1 sts1 table1 where
    a: "lift_fault (apply_op s op) = Inr (outs, s1)"
    and b: "Append sts table op outs = Inr (sts1, table1)"
    and c: "record_ops s1 sts1 table1 ops = Inr (sts', table', s')"
    by (auto split: sum.splits)
  from record_step [OF a b Cons.prems(2)] obtain st where
    st: "sts1 = sts @ [st]" "replay_step s table st = Inr (outs, s1, table1)" "table_ok table1"
    by blast
  from Cons.IH [OF c st(3), of outs] obtain new live' where
    new: "sts' = sts1 @ new" "replay_steps outs s1 table1 new = Inr (live', s')"
    by blast
  from st new have "sts' = sts @ (st # new)" "replay_steps live s table (st # new) = Inr (live', s')"
    by simp_all
  then show ?case by blast
qed

lemma Record_Replay:
  assumes "Record ops sch = Inr (desc, sch')"
  shows "\<exists>hs. Replay desc sch = Inr (hs, sch')"
proof -
  from assms obtain sts table where
    r: "record_ops sch [] [] ops = Inr (sts, table, sch')" and d: "steps desc = sts"
    by (auto simp: Record_def split: sum.splits)
  have "table_ok []" by (simp add: table_ok_def)
  from record_ops_replay [OF r this, of "[]"] d show ?thesis
    by (auto simp: Replay_def)
qed

subsection \<open>The primitives under a renaming\<close>

lemma renamed_step:
  "renamed \<rho> s s' \<Longrightarrow> nests t' = rename_nests \<rho> (nests t) \<Longrightarrow> next_id t = next_id s + m
   \<Longrightarrow> next_id t' = next_id s' + m \<Longrightarrow> renamed \<rho> t t'"
  by (simp add: renamed_def add.assoc)

lemma map_of_rename:
  "map_of (rename_nests \<rho> ns) b = map_option (rename_nest \<rho>) (map_of ns b)"
  by (induction ns) (auto simp: rename_nests_def)

lemma set_nest_rename:
  "set_nest b (rename_nest \<rho> n) (rename_nests \<rho> ns) = rename_nests \<rho> (set_nest b n ns)"
  by (simp add: set_nest_def rename_nests_def)

lemma loop_id_rename [simp]: "loop_id (rename_loop \<rho> l) = \<rho> (loop_id l)"
  by (simp add: rename_loop_def)

lemma rename_loop_fields [simp]:
  "extent (rename_loop \<rho> l) = extent l" "loop_var (rename_loop \<rho> l) = loop_var l"
  "for_type (rename_loop \<rho> l) = for_type l" "bind_info (rename_loop \<rho> l) = bind_info l"
  by (simp_all add: rename_loop_def)

lemma loops_rename [simp]: "loops (rename_nest \<rho> n) = map (rename_loop \<rho>) (loops n)"
  by (simp add: rename_nest_def)

lemma stmts_rename [simp]: "stmts (rename_nest \<rho> n) = stmts n"
  by (simp add: rename_nest_def)

lemma rename_nest_loops:
  "rename_nest \<rho> (n\<lparr>loops := ls\<rparr>) = (rename_nest \<rho> n)\<lparr>loops := map (rename_loop \<rho>) ls\<rparr>"
  by (simp add: rename_nest_def)

lemma takeWhile_rename:
  "inj \<rho> \<Longrightarrow> takeWhile (\<lambda>l. loop_id l \<noteq> \<rho> i) (map (rename_loop \<rho>) ls)
   = map (rename_loop \<rho>) (takeWhile (\<lambda>l. loop_id l \<noteq> i) ls)"
  by (induction ls) (auto simp: inj_eq)

lemma dropWhile_rename:
  "inj \<rho> \<Longrightarrow> dropWhile (\<lambda>l. loop_id l \<noteq> \<rho> i) (map (rename_loop \<rho>) ls)
   = map (rename_loop \<rho>) (dropWhile (\<lambda>l. loop_id l \<noteq> i) ls)"
  by (induction ls) (auto simp: inj_eq)

lemma find_rename:
  "inj \<rho> \<Longrightarrow> find (\<lambda>l. loop_id l = \<rho> i) (map (rename_loop \<rho>) ls)
   = map_option (rename_loop \<rho>) (find (\<lambda>l. loop_id l = i) ls)"
  by (induction ls) (auto simp: inj_eq)

lemma rename_handle_inj: "inj \<rho> \<Longrightarrow> inj (rename_handle \<rho>)"
  by (auto simp: inj_on_def rename_handle_def prod_eq_iff)

lemma handles_rename:
  "map (\<lambda>l. (b, loop_id l)) (map (rename_loop \<rho>) ls)
   = map (rename_handle \<rho>) (map (\<lambda>l. (b, loop_id l)) ls)"
  by (simp add: rename_handle_def)

lemma fused_var_rename: "fused_var (map (rename_loop \<rho>) ls) = fused_var ls"
  by (simp add: fused_var_def comp_def)

lemma GetLoops_rel:
  "renamed \<rho> s s' \<Longrightarrow> GetLoops s' b = map_sum id (map (rename_handle \<rho>)) (GetLoops s b)"
  by (cases "map_of (nests s) b")
     (simp_all add: GetLoops_def renamed_def map_of_rename rename_handle_def)

lemma GetAllBlocks_rel: "renamed \<rho> s s' \<Longrightarrow> GetAllBlocks s' = GetAllBlocks s"
  by (simp add: GetAllBlocks_def renamed_def rename_nests_def comp_def)

lemma GetBlock_rel: "renamed \<rho> s s' \<Longrightarrow> GetBlock s' nm = GetBlock s nm"
  by (simp add: GetBlock_def renamed_def rename_nests_def comp_def)

lemma Fuse_nonempty:
  "hs \<noteq> [] \<Longrightarrow> map_of (nests s) (fst (hd hs)) = Some n \<Longrightarrow>
   Fuse s hs =
     (if map (\<lambda>l. (fst (hd hs), loop_id l))
           (take (length hs) (dropWhile (\<lambda>l. loop_id l \<noteq> snd (hd hs)) (loops n))) \<noteq> hs
      then Inl CheckFailed
      else Inr ((fst (hd hs), next_id s),
                s\<lparr>nests := set_nest (fst (hd hs))
                     (n\<lparr>loops := takeWhile (\<lambda>l. loop_id l \<noteq> snd (hd hs)) (loops n)
                          @ \<lparr>loop_id = next_id s, for_type = Serial, bind_info = None,
                              loop_var = fused_var (take (length hs)
                                  (dropWhile (\<lambda>l. loop_id l \<noteq> snd (hd hs)) (loops n))),
                              extent = prod_list (map extent (take (length hs)
                                  (dropWhile (\<lambda>l. loop_id l \<noteq> snd (hd hs)) (loops n))))\<rparr>
                          # drop (length hs) (dropWhile (\<lambda>l. loop_id l \<noteq> snd (hd hs)) (loops n))\<rparr>)
                     (nests s),
                  next_id := next_id s + 1,
                  calls := calls s @ [FuseCall hs (fst (hd hs), next_id s)]\<rparr>))"
  by (cases hs) (simp_all add: Fuse_def Let_def)

lemma Fuse_rel:
  assumes R: "renamed \<rho> s s'"
  shows "rel_sum (=) (\<lambda>r r'. fst r' = rename_handle \<rho> (fst r) \<and> renamed \<rho> (snd r) (snd r'))
           (Fuse s hs) (Fuse s' (map (rename_handle \<rho>) hs))"
proof (cases "hs = []")
  case True
  then show ?thesis by (simp add: Fuse_def)
next
  case False
  from R have inj: "inj \<rho>" and ns: "nests s' = rename_nests \<rho> (nests s)"
    and nid: "next_id s' = \<rho> (next_id s)"
    by (simp_all add: renamed_def)
  define h where "h = hd hs"
  have hd': "hd (map (rename_handle \<rho>) hs) = (fst h, \<rho> (snd h))" "map (rename_handle \<rho>) hs \<noteq> []"
    using False by (simp_all add: h_def hd_map rename_handle_def)
  show ?thesis
  proof (cases "map_of (nests s) (fst h)")
    case None
    with False show ?thesis
      by (cases hs) (simp_all add: Fuse_def ns map_of_rename rename_handle_def h_def)
  next
    case (Some n)
    let ?outer = "takeWhile (\<lambda>l. loop_id l \<noteq> snd h) (loops n)"
    let ?rest = "dropWhile (\<lambda>l. loop_id l \<noteq> snd h) (loops n)"
    let ?seg = "take (length hs) ?rest"
    let ?fused = "\<lparr>loop_id = next_id s, for_type = Serial, bind_info = None,
                   loop_var = fused_var ?seg, extent = prod_list (map extent ?seg)\<rparr>"
    let ?N = "n\<lparr>loops := ?outer @ ?fused # drop (length hs) ?rest\<rparr>"
    let ?ok = "map (\<lambda>l. (fst h, loop_id l)) ?seg = hs"
    let ?T = "s\<lparr>nests := set_nest (fst h) ?N (nests s), next_id := next_id s + 1,
                            calls := calls s @ [FuseCall hs (fst h, next_id s)]\<rparr>"
    let ?T' = "s'\<lparr>nests := set_nest (fst h) (rename_nest \<rho> ?N) (nests s'),
                            next_id := next_id s' + 1,
                            calls := calls s' @ [FuseCall (map (rename_handle \<rho>) hs) (fst h, \<rho> (next_id s))]\<rparr>"
    have a: "Fuse s hs = (if \<not> ?ok then Inl CheckFailed else Inr ((fst h, next_id s), ?T))"
      using Fuse_nonempty [OF False, of s n] Some by (simp add: h_def)
    have ok: "(map (\<lambda>l. (fst h, loop_id l)) (map (rename_loop \<rho>) ?seg) = map (rename_handle \<rho>) hs) = ?ok"
      unfolding handles_rename using inj_map_eq_map [OF rename_handle_inj [OF inj]] by blast
    have N: "rename_nest \<rho> ?N
             = (rename_nest \<rho> n)\<lparr>loops := map (rename_loop \<rho>) ?outer @ rename_loop \<rho> ?fused
                                          # drop (length hs) (map (rename_loop \<rho>) ?rest)\<rparr>"
      by (simp add: rename_nest_loops drop_map)
    have f: "rename_loop \<rho> ?fused
             = \<lparr>loop_id = \<rho> (next_id s), for_type = Serial, bind_info = None,
                 loop_var = fused_var (map (rename_loop \<rho>) ?seg),
                 extent = prod_list (map extent (map (rename_loop \<rho>) ?seg))\<rparr>"
      by (simp add: rename_loop_def fused_var_rename comp_def)
    have m: "map_of (nests s') (fst (hd (map (rename_handle \<rho>) hs))) = Some (rename_nest \<rho> n)"
      using Some by (simp add: hd' ns map_of_rename)
    have b: "Fuse s' (map (rename_handle \<rho>) hs) =
               (if \<not> ?ok then Inl CheckFailed else Inr ((fst h, \<rho> (next_id s)), ?T'))"
      unfolding Fuse_nonempty [OF hd'(2) m] hd' N f
      using ok
      by (simp add: takeWhile_rename [OF inj] dropWhile_rename [OF inj] nid take_map
          del: rename_loop_fields)
    have T: "renamed \<rho> ?T ?T'"
      by (rule renamed_step [OF R, of _ _ 1]) (simp_all add: ns set_nest_rename)
    show ?thesis
      unfolding a b using T by (simp add: rename_handle_def)
  qed
qed

lemma split_loops_rename:
  "(\<forall>k. \<rho> (i + k) = \<rho> i + k) \<Longrightarrow> map (rename_loop \<rho>) (split_loops i v es) = split_loops (\<rho> i) v es"
  by (simp add: split_loops_def rename_loop_def comp_def case_prod_beta)

lemma Split_unfold:
  "map_of (nests s) (fst h) = Some n \<Longrightarrow>
   Split s h factors =
     (case dropWhile (\<lambda>l. loop_id l \<noteq> snd h) (loops n) of
        [] \<Rightarrow> Inl CheckFailed
      | l # inner \<Rightarrow>
          (case infer_factors (extent l) factors of
             Inl f \<Rightarrow> Inl f
           | Inr es \<Rightarrow>
               Inr (map (\<lambda>l. (fst h, loop_id l)) (split_loops (next_id s) (loop_var l) es),
                    s\<lparr>nests := set_nest (fst h)
                           (n\<lparr>loops := takeWhile (\<lambda>l. loop_id l \<noteq> snd h) (loops n)
                                @ split_loops (next_id s) (loop_var l) es @ inner\<rparr>)
                           (nests s),
                      next_id := next_id s + length es,
                      calls := calls s @ [SplitCall h factors
                          (map (\<lambda>l. (fst h, loop_id l)) (split_loops (next_id s) (loop_var l) es))]\<rparr>)))"
  unfolding Split_def Let_def by (simp only: option.case)

lemma Split_rel:
  assumes R: "renamed \<rho> s s'"
  shows "rel_sum (=) (\<lambda>r r'. fst r' = map (rename_handle \<rho>) (fst r) \<and> renamed \<rho> (snd r) (snd r'))
           (Split s h factors) (Split s' (rename_handle \<rho> h) factors)"
proof (cases "map_of (nests s) (fst h)")
  case None
  then show ?thesis using R by (simp add: Split_def renamed_def map_of_rename rename_handle_def)
next
  case (Some n)
  from R have inj: "inj \<rho>" and ns: "nests s' = rename_nests \<rho> (nests s)"
    and nid: "next_id s' = \<rho> (next_id s)" and cnt: "\<forall>k. \<rho> (next_id s + k) = \<rho> (next_id s) + k"
    by (simp_all add: renamed_def)
  have m: "map_of (nests s') (fst (rename_handle \<rho> h)) = Some (rename_nest \<rho> n)"
    using Some by (simp add: ns map_of_rename rename_handle_def)
  have dw: "dropWhile (\<lambda>l. loop_id l \<noteq> snd (rename_handle \<rho> h)) (loops (rename_nest \<rho> n))
            = map (rename_loop \<rho>) (dropWhile (\<lambda>l. loop_id l \<noteq> snd h) (loops n))"
    by (simp add: rename_handle_def dropWhile_rename [OF inj])
  have tw: "takeWhile (\<lambda>l. loop_id l \<noteq> snd (rename_handle \<rho> h)) (loops (rename_nest \<rho> n))
            = map (rename_loop \<rho>) (takeWhile (\<lambda>l. loop_id l \<noteq> snd h) (loops n))"
    by (simp add: rename_handle_def takeWhile_rename [OF inj])
  show ?thesis
  proof (cases "dropWhile (\<lambda>l. loop_id l \<noteq> snd h) (loops n)")
    case Nil
    show ?thesis
      unfolding Split_unfold [OF Some] Split_unfold [OF m] dw Nil by simp
  next
    case (Cons l inner)
    show ?thesis
    proof (cases "infer_factors (extent l) factors")
      case (Inl f)
      show ?thesis
        unfolding Split_unfold [OF Some] Split_unfold [OF m] dw Cons by (simp add: Inl)
    next
      case (Inr es)
      let ?new = "split_loops (next_id s) (loop_var l) es"
      let ?N = "n\<lparr>loops := takeWhile (\<lambda>l. loop_id l \<noteq> snd h) (loops n) @ ?new @ inner\<rparr>"
      have N: "(rename_nest \<rho> n)\<lparr>loops := map (rename_loop \<rho>) (takeWhile (\<lambda>l. loop_id l \<noteq> snd h) (loops n))
                     @ split_loops (\<rho> (next_id s)) (loop_var l) es @ map (rename_loop \<rho>) inner\<rparr>
               = rename_nest \<rho> ?N"
        by (simp add: rename_nest_loops split_loops_rename [OF cnt])
      have hs: "map (\<lambda>l. (fst (rename_handle \<rho> h), loop_id l)) (split_loops (\<rho> (next_id s)) (loop_var l) es)
                = map (rename_handle \<rho>) (map (\<lambda>l. (fst h, loop_id l)) ?new)"
        unfolding split_loops_rename [OF cnt, symmetric] by (simp add: rename_handle_def)
      let ?out = "map (\<lambda>l. (fst h, loop_id l)) ?new"
      let ?T = "s\<lparr>nests := set_nest (fst h) ?N (nests s), next_id := next_id s + length es,
                  calls := calls s @ [SplitCall h factors ?out]\<rparr>"
      let ?T' = "s'\<lparr>nests := set_nest (fst (rename_handle \<rho> h)) (rename_nest \<rho> ?N) (nests s'),
                    next_id := next_id s' + length es,
                    calls := calls s' @ [SplitCall (rename_handle \<rho> h) factors (map (rename_handle \<rho>) ?out)]\<rparr>"
      have a: "Split s h factors = Inr (?out, ?T)"
        unfolding Split_unfold [OF Some] Cons by (simp add: Inr)
      have b: "Split s' (rename_handle \<rho> h) factors = Inr (map (rename_handle \<rho>) ?out, ?T')"
        unfolding Split_unfold [OF m] dw tw Cons nid by (simp add: Inr N hs)
      have T: "renamed \<rho> ?T ?T'"
        by (rule renamed_step [OF R, of _ _ "length es"])
           (simp_all add: ns set_nest_rename rename_handle_def)
      show ?thesis unfolding a b using T by simp
    qed
  qed
qed

lemma Bind_rel:
  assumes R: "renamed \<rho> s s'"
  shows "rel_sum (=) (renamed \<rho>) (Bind s h axis) (Bind s' (rename_handle \<rho> h) axis)"
proof (cases "map_of (nests s) (fst h)")
  case None
  then show ?thesis using R by (simp add: Bind_def renamed_def map_of_rename rename_handle_def)
next
  case (Some n)
  from R have inj: "inj \<rho>" and ns: "nests s' = rename_nests \<rho> (nests s)"
    by (simp_all add: renamed_def)
  let ?N = "n\<lparr>loops := map (\<lambda>l. if loop_id l = snd h then l\<lparr>bind_info := Some axis\<rparr> else l) (loops n)\<rparr>"
  have N: "rename_nest \<rho> ?N
           = (rename_nest \<rho> n)\<lparr>loops := map (\<lambda>l. if loop_id l = \<rho> (snd h) then l\<lparr>bind_info := Some axis\<rparr> else l)
                                          (map (rename_loop \<rho>) (loops n))\<rparr>"
    by (simp add: rename_nest_loops comp_def rename_loop_def if_distrib inj_eq [OF inj] cong: if_cong)
  let ?T = "s\<lparr>nests := set_nest (fst h) ?N (nests s), calls := calls s @ [BindCall h axis]\<rparr>"
  let ?T' = "s'\<lparr>nests := set_nest (fst h) (rename_nest \<rho> ?N) (nests s'),
                calls := calls s' @ [BindCall (rename_handle \<rho> h) axis]\<rparr>"
  have a: "Bind s h axis =
             (if find (\<lambda>l. loop_id l = snd h) (loops n) = None then Inl CheckFailed else Inr ?T)"
    using Some by (simp add: Bind_def)
  have b: "Bind s' (rename_handle \<rho> h) axis =
             (if find (\<lambda>l. loop_id l = snd h) (loops n) = None then Inl CheckFailed else Inr ?T')"
    unfolding N
    using Some
    by (simp add: Bind_def ns map_of_rename rename_handle_def find_rename [OF inj])
  have T: "renamed \<rho> ?T ?T'"
    by (rule renamed_step [OF R, of _ _ 0]) (simp_all add: ns set_nest_rename)
  show ?thesis
    unfolding a b using T by simp
qed

subsection \<open>Replay under a renaming\<close>

lemma refill_rename:
  "inj \<rho> \<Longrightarrow> refill (map \<rho> ids) (map (rename_loop \<rho>) ls) (map (rename_loop \<rho>) new)
   = map (rename_loop \<rho>) (refill ids ls new)"
proof (induction ls arbitrary: new)
  case Nil
  then show ?case by simp
next
  case (Cons l ls)
  have mem: "(\<rho> (loop_id l) \<in> \<rho> ` set ids) = (loop_id l \<in> set ids)"
    using Cons.prems by (simp add: inj_image_mem_iff)
  show ?case
  proof (cases new)
    case Nil
    with Cons.IH [OF Cons.prems, of "[]"] mem show ?thesis by simp
  next
    case (Cons x xs)
    with Cons.IH [OF Cons.prems, of xs] Cons.IH [OF Cons.prems, of new] mem show ?thesis by simp
  qed
qed

lemma picked_rename:
  assumes inj: "inj \<rho>"
  shows "concat (map (\<lambda>x. case find (\<lambda>l. loop_id l = snd x) (map (rename_loop \<rho>) ls) of
                        None \<Rightarrow> [] | Some l \<Rightarrow> [l]) (map (rename_handle \<rho>) hs))
   = map (rename_loop \<rho>)
       (concat (map (\<lambda>x. case find (\<lambda>l. loop_id l = snd x) ls of None \<Rightarrow> [] | Some l \<Rightarrow> [l]) hs))"
proof (induction hs)
  case Nil
  then show ?case by simp
next
  case (Cons h hs)
  have "find (\<lambda>l. loop_id l = snd (rename_handle \<rho> h)) (map (rename_loop \<rho>) ls)
        = map_option (rename_loop \<rho>) (find (\<lambda>l. loop_id l = snd h) ls)"
    by (simp add: rename_handle_def find_rename [OF inj])
  with Cons show ?case
    by (cases "find (\<lambda>l. loop_id l = snd h) ls") simp_all
qed

lemma Reorder_unfold:
  "hs \<noteq> [] \<Longrightarrow> map_of (nests s) (fst (hd hs)) = Some n \<Longrightarrow>
   Reorder s hs =
     (if (\<exists>x \<in> set hs. fst x \<noteq> fst (hd hs) \<or> find (\<lambda>l. loop_id l = snd x) (loops n) = None)
         \<or> \<not> distinct (map snd hs)
      then Inl CheckFailed
      else Inr (s\<lparr>nests := set_nest (fst (hd hs))
                     (n\<lparr>loops := refill (map snd hs) (loops n)
                           (concat (map (\<lambda>x. case find (\<lambda>l. loop_id l = snd x) (loops n) of
                                                None \<Rightarrow> [] | Some l \<Rightarrow> [l]) hs))\<rparr>)
                     (nests s),
                  calls := calls s @ [ReorderCall hs]\<rparr>))"
proof (cases hs)
  case Nil
  then show "hs \<noteq> [] \<Longrightarrow> ?thesis" by simp
next
  case (Cons a list)
  assume "map_of (nests s) (fst (hd hs)) = Some n"
  then have m: "map_of (nests s) (fst a) = Some n" by (simp add: Cons)
  show ?thesis
    unfolding Reorder_def Cons list.sel by (simp only: list.case m option.case)
qed

lemma Reorder_rel:
  assumes R: "renamed \<rho> s s'"
  shows "rel_sum (=) (renamed \<rho>) (Reorder s hs) (Reorder s' (map (rename_handle \<rho>) hs))"
proof (cases "hs = []")
  case True
  then show ?thesis by (simp add: Reorder_def)
next
  case False
  from R have inj: "inj \<rho>" and ns: "nests s' = rename_nests \<rho> (nests s)"
    by (simp_all add: renamed_def)
  define h where "h = hd hs"
  have ne: "map (rename_handle \<rho>) hs \<noteq> []" using False by simp
  have hd': "fst (hd (map (rename_handle \<rho>) hs)) = fst h"
    using False by (simp add: h_def hd_map rename_handle_def)
  show ?thesis
  proof (cases "map_of (nests s) (fst h)")
    case None
    with False show ?thesis
      by (cases hs) (simp_all add: Reorder_def ns map_of_rename rename_handle_def h_def)
  next
    case (Some n)
    have m: "map_of (nests s') (fst (hd (map (rename_handle \<rho>) hs))) = Some (rename_nest \<rho> n)"
      using Some by (simp add: hd' ns map_of_rename)
    have m0: "map_of (nests s) (fst (hd hs)) = Some n" using Some by (simp add: h_def)
    let ?bad = "(\<exists>x \<in> set hs. fst x \<noteq> fst h \<or> find (\<lambda>l. loop_id l = snd x) (loops n) = None)
                 \<or> \<not> distinct (map snd hs)"
    have c1: "(\<exists>x \<in> set (map (rename_handle \<rho>) hs). fst x \<noteq> fst h
                 \<or> find (\<lambda>l. loop_id l = snd x) (loops (rename_nest \<rho> n)) = None)
              = (\<exists>x \<in> set hs. fst x \<noteq> fst h \<or> find (\<lambda>l. loop_id l = snd x) (loops n) = None)"
      by (simp add: rename_handle_def find_rename [OF inj])
    have ids: "map snd (map (rename_handle \<rho>) hs) = map \<rho> (map snd hs)"
      by (simp add: rename_handle_def)
    have c2: "distinct (map snd (map (rename_handle \<rho>) hs)) = distinct (map snd hs)"
      unfolding ids using inj by (simp add: distinct_map inj_on_def del: map_map)
    let ?N = "n\<lparr>loops := refill (map snd hs) (loops n)
                 (concat (map (\<lambda>x. case find (\<lambda>l. loop_id l = snd x) (loops n) of
                                      None \<Rightarrow> [] | Some l \<Rightarrow> [l]) hs))\<rparr>"
    have N: "(rename_nest \<rho> n)\<lparr>loops := refill (map snd (map (rename_handle \<rho>) hs)) (loops (rename_nest \<rho> n))
                 (concat (map (\<lambda>x. case find (\<lambda>l. loop_id l = snd x) (loops (rename_nest \<rho> n)) of
                                      None \<Rightarrow> [] | Some l \<Rightarrow> [l]) (map (rename_handle \<rho>) hs)))\<rparr>
             = rename_nest \<rho> ?N"
      unfolding ids
      by (simp only: loops_rename picked_rename [OF inj] refill_rename [OF inj] rename_nest_loops)
    let ?T = "s\<lparr>nests := set_nest (fst h) ?N (nests s), calls := calls s @ [ReorderCall hs]\<rparr>"
    let ?T' = "s'\<lparr>nests := set_nest (fst h) (rename_nest \<rho> ?N) (nests s'),
                 calls := calls s' @ [ReorderCall (map (rename_handle \<rho>) hs)]\<rparr>"
    have a: "Reorder s hs = (if ?bad then Inl CheckFailed else Inr ?T)"
      unfolding Reorder_unfold [OF False m0] h_def [symmetric] by (rule refl)
    have b: "Reorder s' (map (rename_handle \<rho>) hs) = (if ?bad then Inl CheckFailed else Inr ?T')"
      unfolding Reorder_unfold [OF ne m] hd' c1 c2 N by (rule refl)
    have T: "renamed \<rho> ?T ?T'"
      by (rule renamed_step [OF R, of _ _ 0]) (simp_all add: ns set_nest_rename)
    show ?thesis
      unfolding a b using T by (simp only: rel_sum_simps split: if_split) simp
  qed
qed

lemma map_of_rename_ins:
  "map_of (rename_ins \<rho> ins) slot = map_option (map (rename_ref \<rho>)) (map_of ins slot)"
  by (induction ins) (auto simp: rename_ins_def)

lemma input_slot_rename:
  "input_slot (rename_ins \<rho> ins) slot = map_sum id (map (rename_ref \<rho>)) (input_slot ins slot)"
  by (cases "map_of ins slot") (simp_all add: input_slot_def map_of_rename_ins)

lemma loop_handles_rename:
  "loop_handles (map (rename_ref \<rho>) hs) = map_sum id (map (rename_handle \<rho>)) (loop_handles hs)"
proof (induction hs)
  case Nil
  then show ?case by simp
next
  case (Cons h hs)
  then show ?case by (cases h; cases "loop_handles hs") simp_all
qed

lemma single_loop_rename:
  "single_loop (rename_ins \<rho> ins) slot = map_sum id (rename_handle \<rho>) (single_loop ins slot)"
proof (cases "map_of ins slot")
  case None
  then show ?thesis by (simp add: single_loop_def input_slot_def map_of_rename_ins)
next
  case (Some hs)
  show ?thesis
  proof (cases hs)
    case Nil
    with Some show ?thesis by (simp add: single_loop_def input_slot_def map_of_rename_ins)
  next
    case (Cons h rest)
    with Some show ?thesis
      by (cases h; cases rest) (simp_all add: single_loop_def input_slot_def map_of_rename_ins)
  qed
qed

lemma single_block_rename:
  "single_block (rename_ins \<rho> ins) slot = single_block ins slot"
proof (cases "map_of ins slot")
  case None
  then show ?thesis by (simp add: single_block_def input_slot_def map_of_rename_ins)
next
  case (Some hs)
  show ?thesis
  proof (cases hs)
    case Nil
    with Some show ?thesis by (simp add: single_block_def input_slot_def map_of_rename_ins)
  next
    case (Cons h rest)
    with Some show ?thesis
      by (cases h; cases rest) (simp_all add: single_block_def input_slot_def map_of_rename_ins)
  qed
qed

lemma kind_cases:
  "x = a \<or> x = b \<or> x = c \<or> x = d \<or> x = e \<or> x = f \<or> x = g \<or> x \<notin> {a, b, c, d, e, f, g}"
  by blast

lemma rel_lift_handles:
  "rel_sum (=) (\<lambda>r r'. fst r' = g (fst r) \<and> renamed \<rho> (snd r) (snd r')) x x' \<Longrightarrow>
   (\<And>a. map (rename_ref \<rho>) (k a) = k (g a)) \<Longrightarrow>
   rel_sum (=) (\<lambda>r r'. fst r' = map (rename_ref \<rho>) (fst r) \<and> renamed \<rho> (snd r) (snd r'))
     (map_sum id (\<lambda>(a, s). (k a, s)) (lift_fault x)) (map_sum id (\<lambda>(a, s). (k a, s)) (lift_fault x'))"
  by (cases x; cases x') (auto simp: lift_fault_def)

lemma rel_lift_none:
  "rel_sum (=) (renamed \<rho>) x x' \<Longrightarrow>
   rel_sum (=) (\<lambda>r r'. fst r' = map (rename_ref \<rho>) (fst r) \<and> renamed \<rho> (snd r) (snd r'))
     (map_sum id (\<lambda>s. ([], s)) (lift_fault x)) (map_sum id (\<lambda>s. ([], s)) (lift_fault x'))"
  by (cases x; cases x') (auto simp: lift_fault_def)

lemma rel_loops:
  "renamed \<rho> s s' \<Longrightarrow>
   rel_sum (=) (\<lambda>r r'. fst r' = map (rename_ref \<rho>) (fst r) \<and> renamed \<rho> (snd r) (snd r'))
     (map_sum id (\<lambda>ls. (map LoopRef ls, s)) (lift_fault (GetLoops s b)))
     (map_sum id (\<lambda>ls. (map LoopRef ls, s')) (lift_fault (GetLoops s' b)))"
  by (cases "GetLoops s b") (simp_all add: GetLoops_rel lift_fault_def)

lemma invoke_rel:
  assumes R: "renamed \<rho> s s'"
  shows "rel_sum (=) (\<lambda>r r'. fst r' = map (rename_ref \<rho>) (fst r) \<and> renamed \<rho> (snd r) (snd r'))
           (invoke kind s ins ats) (invoke kind s' (rename_ins \<rho> ins) ats)"
proof -
  consider (a) "kind = ''GetAllBlocks''" | (b) "kind = ''GetLoops''" | (c) "kind = ''GetLoopsWithName''"
    | (d) "kind = ''Fuse''" | (e) "kind = ''Split''" | (f) "kind = ''Reorder''" | (g) "kind = ''Bind''"
    | (h) "kind \<notin> {''GetAllBlocks'', ''GetLoops'', ''GetLoopsWithName'', ''Fuse'', ''Split'',
                      ''Reorder'', ''Bind''}"
    using kind_cases [of kind "''GetAllBlocks''" "''GetLoops''" "''GetLoopsWithName''" "''Fuse''"
        "''Split''" "''Reorder''" "''Bind''"]
    by (elim disjE)
  then show ?thesis
  proof cases
    case a
    show ?thesis
      unfolding a invoke_GetAllBlocks GetAllBlocks_rel [OF R]
      using R by (simp add: comp_def)
  next
    case b
    show ?thesis
      unfolding b invoke_GetLoops single_block_rename
      using rel_loops [OF R]
      by (cases "single_block ins ''block''") simp_all
  next
    case c
    show ?thesis
    proof (cases "string_attr ats ''block_name''")
      case (Inl x)
      then show ?thesis unfolding c invoke_GetLoopsWithName by simp
    next
      case (Inr nm)
      show ?thesis
      proof (cases "lift_fault (GetBlock s nm)")
        case (Inl x)
        with Inr show ?thesis
          unfolding c invoke_GetLoopsWithName GetBlock_rel [OF R] by simp
      next
        case bb: (Inr bk)
        with Inr rel_loops [OF R, of bk] show ?thesis
          unfolding c invoke_GetLoopsWithName GetBlock_rel [OF R] by simp
      qed
    qed
  next
    case d
    show ?thesis
    proof (cases "input_slot ins ''loops''")
      case (Inl e)
      then show ?thesis unfolding d invoke_Fuse input_slot_rename by simp
    next
      case (Inr hs)
      show ?thesis
      proof (cases "loop_handles hs")
        case (Inl e)
        with Inr show ?thesis
          unfolding d invoke_Fuse input_slot_rename by (simp add: loop_handles_rename)
      next
        case ls: (Inr ls)
        have "rel_sum (=) (\<lambda>r r'. fst r' = map (rename_ref \<rho>) (fst r) \<and> renamed \<rho> (snd r) (snd r'))
                (map_sum id (\<lambda>(f, s). ([LoopRef f], s)) (lift_fault (Fuse s ls)))
                (map_sum id (\<lambda>(f, s). ([LoopRef f], s)) (lift_fault (Fuse s' (map (rename_handle \<rho>) ls))))"
          by (rule rel_lift_handles [OF Fuse_rel [OF R]]) simp
        with Inr ls show ?thesis
          unfolding d invoke_Fuse input_slot_rename by (simp add: loop_handles_rename)
      qed
    qed
  next
    case e
    show ?thesis
    proof (cases "single_loop ins ''loop''")
      case (Inl x)
      then show ?thesis unfolding e invoke_Split single_loop_rename by simp
    next
      case (Inr l)
      show ?thesis
      proof (cases "ints_attr ats ''factors''")
        case (Inl x)
        with Inr show ?thesis unfolding e invoke_Split single_loop_rename by simp
      next
        case fs: (Inr fs)
        have "rel_sum (=) (\<lambda>r r'. fst r' = map (rename_ref \<rho>) (fst r) \<and> renamed \<rho> (snd r) (snd r'))
                (map_sum id (\<lambda>(ls, s). (map LoopRef ls, s)) (lift_fault (Split s l fs)))
                (map_sum id (\<lambda>(ls, s). (map LoopRef ls, s)) (lift_fault (Split s' (rename_handle \<rho> l) fs)))"
          by (rule rel_lift_handles [OF Split_rel [OF R]]) simp
        with Inr fs show ?thesis
          unfolding e invoke_Split single_loop_rename by simp
      qed
    qed
  next
    case f
    show ?thesis
    proof (cases "input_slot ins ''loops''")
      case (Inl e)
      then show ?thesis unfolding f invoke_Reorder input_slot_rename by simp
    next
      case (Inr hs)
      show ?thesis
      proof (cases "loop_handles hs")
        case (Inl e)
        with Inr show ?thesis
          unfolding f invoke_Reorder input_slot_rename by (simp add: loop_handles_rename)
      next
        case ls: (Inr ls)
        with Inr rel_lift_none [OF Reorder_rel [OF R, of ls]] show ?thesis
          unfolding f invoke_Reorder input_slot_rename
          by (simp add: loop_handles_rename)
      qed
    qed
  next
    case g
    show ?thesis
    proof (cases "single_loop ins ''loop''")
      case (Inl x)
      then show ?thesis unfolding g invoke_Bind single_loop_rename by simp
    next
      case (Inr l)
      show ?thesis
      proof (cases "string_attr ats ''thread_axis''")
        case (Inl x)
        with Inr show ?thesis unfolding g invoke_Bind single_loop_rename by simp
      next
        case ax: (Inr axis)
        with Inr rel_lift_none [OF Bind_rel [OF R, of l axis]] show ?thesis
          unfolding g invoke_Bind single_loop_rename by simp
      qed
    qed
  next
    case h
    then show ?thesis by (simp add: invoke_other)
  qed
qed

lemma map_of_rename_table:
  "map_of (rename_table \<rho> table) n = map_option (rename_ref \<rho>) (map_of table n)"
  by (induction table) (auto simp: rename_table_def)

lemma resolve_rename:
  "resolve (rename_table \<rho> table) ns = map_sum id (map (rename_ref \<rho>)) (resolve table ns)"
proof (induction ns)
  case Nil
  then show ?case by simp
next
  case (Cons n ns)
  then show ?case
    by (cases "map_of table n"; cases "resolve table ns") (simp_all add: map_of_rename_table)
qed

lemma resolve_inputs_rename:
  "resolve_inputs (rename_table \<rho> table) ins = map_sum id (rename_ins \<rho>) (resolve_inputs table ins)"
proof (induction ins)
  case Nil
  then show ?case by (simp add: rename_ins_def)
next
  case (Cons a ins)
  obtain slot ns where a: "a = (slot, ns)" by (cases a)
  from Cons show ?case
    unfolding a
    by (cases "resolve table ns"; cases "resolve_inputs table ins")
       (simp_all add: resolve_rename rename_ins_def)
qed

lemma rel_sum_Inl: "rel_sum (=) Q (Inl e) x = (x = Inl e)"
  by (cases x) auto

lemma replay_step_rel:
  assumes R: "renamed \<rho> s s'"
  shows "rel_sum (=) (\<lambda>r r'. fst r' = map (rename_ref \<rho>) (fst r)
                          \<and> renamed \<rho> (fst (snd r)) (fst (snd r'))
                          \<and> snd (snd r') = rename_table \<rho> (snd (snd r)))
           (replay_step s table step) (replay_step s' (rename_table \<rho> table) step)"
proof (cases "resolve_inputs table (inputs step)")
  case (Inl e)
  then show ?thesis by (simp add: replay_step_def resolve_inputs_rename)
next
  case (Inr ins)
  have z: "zip ns (map (rename_ref \<rho>) outs) = rename_table \<rho> (zip ns outs)" for ns outs
    by (simp add: zip_map2 case_prod_beta rename_table_def)
  have app: "rename_table \<rho> (x @ y) = rename_table \<rho> x @ rename_table \<rho> y" for x y
    by (simp add: rename_table_def)
  show ?thesis
  proof (cases "invoke (step_type step) s ins (attrs step)")
    case (Inl e)
    with Inr invoke_rel [OF R, of "step_type step" ins "attrs step"] show ?thesis
      by (simp add: replay_step_def resolve_inputs_rename rel_sum_Inl)
  next
    case r: (Inr r)
    obtain outs t where r': "r = (outs, t)" by (cases r)
    from r r' invoke_rel [OF R, of "step_type step" ins "attrs step"]
    obtain t' where i: "invoke (step_type step) s' (rename_ins \<rho> ins) (attrs step)
                         = Inr (map (rename_ref \<rho>) outs, t')" and T: "renamed \<rho> t t'"
      by (cases "invoke (step_type step) s' (rename_ins \<rho> ins) (attrs step)") (auto simp: prod_eq_iff)
    from Inr r r' i T show ?thesis
      by (simp add: replay_step_def resolve_inputs_rename z app)
  qed
qed

lemma replay_steps_rel:
  "renamed \<rho> s s' \<Longrightarrow>
   rel_sum (=) (\<lambda>r r'. fst r' = map (rename_ref \<rho>) (fst r) \<and> renamed \<rho> (snd r) (snd r'))
     (replay_steps live s table sts)
     (replay_steps (map (rename_ref \<rho>) live) s' (rename_table \<rho> table) sts)"
proof (induction sts arbitrary: live s s' table)
  case Nil
  then show ?case by simp
next
  case (Cons step sts)
  show ?case
  proof (cases "replay_step s table step")
    case (Inl e)
    with replay_step_rel [OF Cons.prems, of table step] show ?thesis by (simp add: rel_sum_Inl)
  next
    case (Inr r)
    obtain outs t table' where r: "r = (outs, t, table')" by (cases r)
    from Inr r replay_step_rel [OF Cons.prems, of table step]
    obtain t' where i: "replay_step s' (rename_table \<rho> table) step
                         = Inr (map (rename_ref \<rho>) outs, t', rename_table \<rho> table')"
      and T: "renamed \<rho> t t'"
      by (cases "replay_step s' (rename_table \<rho> table) step") (auto simp: prod_eq_iff)
    from Inr r i Cons.IH [OF T, of outs table'] show ?thesis by simp
  qed
qed

lemma nest_body_rename: "nest_body (map (rename_loop \<rho>) ls) ss = nest_body ls ss"
  by (induction ls) simp_all

lemma module_exprs_renamed: "renamed \<rho> s s' \<Longrightarrow> module_exprs s' = module_exprs s"
  by (simp add: module_exprs_def renamed_def rename_nests_def comp_def nest_body_rename)

lemma Replay_rel:
  assumes R: "renamed \<rho> s s'"
  shows "rel_sum (=) (\<lambda>r r'. module_exprs (snd r') = module_exprs (snd r)) (Replay desc s) (Replay desc s')"
proof -
  have "rel_sum (=) (\<lambda>r r'. fst r' = map (rename_ref \<rho>) (fst r) \<and> renamed \<rho> (snd r) (snd r'))
          (Replay desc s) (Replay desc s')"
    using replay_steps_rel [OF R, of "[]" "[]" "steps desc"] by (simp add: Replay_def rename_table_def)
  then show ?thesis
    by (cases "Replay desc s"; cases "Replay desc s'") (auto simp: module_exprs_renamed)
qed

subsection \<open>A renaming for a fresh copy\<close>

lemma rename_nests_cong_list:
  "(\<And>i. i \<in> set (concat (map (\<lambda>e. map loop_id (loops (snd e))) ns)) \<Longrightarrow> \<rho> i = \<sigma> i)
   \<Longrightarrow> rename_nests \<rho> ns = rename_nests \<sigma> ns"
proof (induction ns)
  case Nil
  then show ?case by (simp add: rename_nests_def)
next
  case (Cons e ns)
  have "map (rename_loop \<rho>) (loops (snd e)) = map (rename_loop \<sigma>) (loops (snd e))"
    using Cons.prems by (simp add: rename_loop_def)
  moreover have "rename_nests \<rho> ns = rename_nests \<sigma> ns"
    using Cons.prems by (intro Cons.IH) simp
  ultimately show ?case by (simp add: rename_nests_def rename_nest_def)
qed

lemma rename_nests_cong:
  "(\<And>i. i \<in> set (loop_ids s) \<Longrightarrow> \<rho> i = \<sigma> i)
   \<Longrightarrow> rename_nests \<rho> (nests s) = rename_nests \<sigma> (nests s)"
  unfolding loop_ids_def by (rule rename_nests_cong_list)

lemma rename_nests_comp:
  "rename_nests \<sigma> (rename_nests \<rho> ns) = rename_nests (\<sigma> \<circ> \<rho>) ns"
  by (simp add: rename_nests_def rename_nest_def rename_loop_def comp_def)

lemma rename_loop_id: "rename_loop id = id"
  by (rule ext) (simp add: rename_loop_def)

lemma rename_nests_id:
  assumes a: "\<And>i. i \<in> set (loop_ids s) \<Longrightarrow> \<rho> i = i"
  shows "rename_nests \<rho> (nests s) = nests s"
proof -
  have "rename_nests \<rho> (nests s) = rename_nests id (nests s)"
    by (rule rename_nests_cong) (simp add: a)
  also have "\<dots> = nests s"
    by (simp add: rename_nests_def rename_nest_def rename_loop_id)
  finally show ?thesis .
qed

lemma loop_ids_rename:
  "nests s' = rename_nests \<rho> (nests s) \<Longrightarrow> loop_ids s' = map \<rho> (loop_ids s)"
  by (simp add: loop_ids_def rename_nests_def comp_def map_concat)

lemma extend_renaming:
  assumes fin: "finite U" and inj0: "inj_on \<rho>0 U"
    and lt: "\<And>i. i \<in> U \<Longrightarrow> i < a \<and> \<rho>0 i < m" and le: "a \<le> (m::nat)"
  shows "\<exists>\<rho>. inj \<rho> \<and> (\<forall>i \<in> U. \<rho> i = \<rho>0 i) \<and> (\<forall>k. \<rho> (a + k) = m + k)"
proof -
  let ?A = "{..<a} - U" and ?B = "{..<m} - \<rho>0 ` U"
  have U: "U \<subseteq> {..<a}" and V: "\<rho>0 ` U \<subseteq> {..<m}" using lt by auto
  have cA: "card ?A = a - card U" using U fin by (simp add: card_Diff_subset)
  have cB: "card ?B = m - card U"
    using V fin inj0 by (simp add: card_Diff_subset card_image)
  have "card ?A \<le> card ?B" unfolding cA cB using le by simp
  then obtain f where f: "f ` ?A \<subseteq> ?B" "inj_on f ?A"
    using card_le_inj [of ?A ?B] by auto
  define \<rho> where "\<rho> i = (if i \<in> U then \<rho>0 i else if i < a then f i else m + (i - a))" for i
  have r1: "\<rho> i = \<rho>0 i" if "i \<in> U" for i using that by (simp add: \<rho>_def)
  have r2: "\<rho> i = f i" "f i \<in> ?B" if "i \<notin> U" "i < a" for i
    using that f(1) by (auto simp: \<rho>_def)
  have r3: "\<rho> i = m + (i - a)" if "a \<le> i" for i
    using that lt [of i] by (auto simp: \<rho>_def)
  have d1: "\<rho> x \<noteq> \<rho> y" if "x \<in> U" "y \<notin> U" "y < a" for x y
  proof
    assume "\<rho> x = \<rho> y"
    with r1 [OF that(1)] r2(1) [OF that(2,3)] have "f y = \<rho>0 x" by simp
    with that(1) have "f y \<in> \<rho>0 ` U" by simp
    with r2(2) [OF that(2,3)] show False by simp
  qed
  have d2: "\<rho> x \<noteq> \<rho> y" if "x \<in> U" "a \<le> y" for x y
    using r1 [OF that(1)] r3 [OF that(2)] lt [OF that(1)] by simp
  have d3: "\<rho> x \<noteq> \<rho> y" if "x \<notin> U" "x < a" "a \<le> y" for x y
    using r2 [OF that(1,2)] r3 [OF that(3)] by simp
  have "inj \<rho>"
  proof (rule injI)
    fix x y
    assume e: "\<rho> x = \<rho> y"
    consider (u) "x \<in> U" | (f) "x \<notin> U" "x < a" | (t) "a \<le> x" by fastforce
    then show "x = y"
    proof cases
      case u
      consider (u') "y \<in> U" | (f') "y \<notin> U" "y < a" | (t') "a \<le> y" by fastforce
      then show ?thesis
      proof cases
        case u'
        with u e inj0 show ?thesis by (simp add: r1 inj_on_def)
      next
        case f'
        from d1 [OF u f'] e show ?thesis by simp
      next
        case t'
        from d2 [OF u t'] e show ?thesis by simp
      qed
    next
      case f
      consider (u') "y \<in> U" | (f') "y \<notin> U" "y < a" | (t') "a \<le> y" by fastforce
      then show ?thesis
      proof cases
        case u'
        from d1 [OF u' f] e show ?thesis by simp
      next
        case f'
        from r2(1) [OF f] r2(1) [OF f'] e have "f x = f y" by simp
        with \<open>inj_on f ?A\<close> f f' show ?thesis by (simp add: inj_on_def)
      next
        case t'
        from d3 [OF f t'] e show ?thesis by simp
      qed
    next
      case t
      consider (u') "y \<in> U" | (f') "y \<notin> U" "y < a" | (t') "a \<le> y" by fastforce
      then show ?thesis
      proof cases
        case u'
        from d2 [OF u' t] e show ?thesis by simp
      next
        case f'
        from d3 [OF f' t] e show ?thesis by simp
      next
        case t'
        from r3 [OF t] r3 [OF t'] e t t' show ?thesis by simp
      qed
    qed
  qed
  moreover have "\<forall>i \<in> U. \<rho> i = \<rho>0 i" by (simp add: r1)
  moreover have "\<forall>k. \<rho> (a + k) = m + k" by (simp add: r3)
  ultimately show ?thesis by blast
qed

lemma fresh_copy_renamed:
  assumes F: "fresh_copy \<rho>0 s s'" and le: "next_id s \<le> next_id s'"
  shows "\<exists>\<rho>. renamed \<rho> s s'"
proof -
  from F have ns: "nests s' = rename_nests \<rho>0 (nests s)" and inj0: "inj_on \<rho>0 (set (loop_ids s))"
    and lt: "\<And>i. i \<in> set (loop_ids s) \<Longrightarrow> i < next_id s \<and> \<rho>0 i < next_id s'"
    by (simp_all add: fresh_copy_def list_all_iff)
  from extend_renaming [of "set (loop_ids s)" \<rho>0 "next_id s" "next_id s'", OF _ inj0 lt le]
  obtain \<rho> where inj: "inj \<rho>" and eq: "\<forall>i \<in> set (loop_ids s). \<rho> i = \<rho>0 i"
    and cnt: "\<forall>k. \<rho> (next_id s + k) = next_id s' + k"
    by auto
  have "rename_nests \<rho> (nests s) = rename_nests \<rho>0 (nests s)"
    by (rule rename_nests_cong) (simp add: eq)
  moreover from cnt [rule_format, of 0] have z: "\<rho> (next_id s) = next_id s'" by simp
  ultimately have "renamed \<rho> s s'"
    using inj ns cnt by (simp add: renamed_def)
  then show ?thesis by blast
qed

lemma fresh_copy_sym:
  assumes F: "fresh_copy \<rho> s s'"
  shows "fresh_copy (inv_into (set (loop_ids s)) \<rho>) s' s"
proof -
  let ?U = "set (loop_ids s)"
  let ?\<sigma> = "inv_into ?U \<rho>"
  from F have ns: "nests s' = rename_nests \<rho> (nests s)" and inj: "inj_on \<rho> ?U"
    and lt: "\<And>i. i \<in> ?U \<Longrightarrow> i < next_id s \<and> \<rho> i < next_id s'"
    by (simp_all add: fresh_copy_def list_all_iff)
  have ids: "loop_ids s' = map \<rho> (loop_ids s)" by (rule loop_ids_rename [OF ns])
  have inv: "?\<sigma> (\<rho> i) = i" if "i \<in> ?U" for i using inj that by simp
  have "rename_nests ?\<sigma> (nests s') = rename_nests (?\<sigma> \<circ> \<rho>) (nests s)"
    by (simp add: ns rename_nests_comp)
  also have "\<dots> = nests s"
    by (rule rename_nests_id) (simp add: inv)
  finally have a: "nests s = rename_nests ?\<sigma> (nests s')" by simp
  have b: "inj_on ?\<sigma> (set (loop_ids s'))"
    unfolding ids using inj_on_inv_into [of "\<rho> ` ?U" \<rho> ?U] by simp
  have c: "list_all (\<lambda>i. i < next_id s' \<and> ?\<sigma> i < next_id s) (loop_ids s')"
    unfolding ids using lt inv by (auto simp: list_all_iff)
  from a b c show ?thesis by (simp add: fresh_copy_def)
qed

lemma fresh_copy_Replay:
  assumes F: "fresh_copy \<rho> s s'" and r: "Replay desc s = Inr (hs, t)"
  shows "\<exists>hs' t'. Replay desc s' = Inr (hs', t') \<and> module_exprs t' = module_exprs t"
proof (cases "next_id s \<le> next_id s'")
  case True
  from fresh_copy_renamed [OF F True] obtain \<rho>' where R: "renamed \<rho>' s s'" ..
  from Replay_rel [OF R, of desc] r show ?thesis
    by (cases "Replay desc s'") auto
next
  case False
  then have le: "next_id s' \<le> next_id s" by simp
  from fresh_copy_renamed [OF fresh_copy_sym [OF F] le] obtain \<sigma> where R: "renamed \<sigma> s' s" ..
  from Replay_rel [OF R, of desc] r show ?thesis
    by (cases "Replay desc s'") auto
qed

subsection \<open>Structurally equal IRs\<close>

lemma loops_complete_For [simp]: "\<not> loops_complete [For t b v e body]"
  by (simp add: loops_complete_def)

lemma nest_body_inj:
  "nest_body ls ss = nest_body ls' ss' \<Longrightarrow> loops_complete ss \<Longrightarrow> loops_complete ss' \<Longrightarrow>
   list_all2 (\<lambda>l l'. l' = l\<lparr>loop_id := loop_id l'\<rparr>) ls ls' \<and> ss' = ss"
proof (induction ls arbitrary: ls')
  case Nil
  then show ?case by (cases ls') auto
next
  case (Cons l r)
  show ?case
  proof (cases ls')
    case Nil
    with Cons.prems show ?thesis by auto
  next
    case c: (Cons l' r')
    from Cons.prems(1) have f: "for_type l' = for_type l" "bind_info l' = bind_info l"
      "loop_var l' = loop_var l" "extent l' = extent l"
      and b: "nest_body r ss = nest_body r' ss'"
      by (simp_all add: c)
    from f have "l' = l\<lparr>loop_id := loop_id l'\<rparr>" by (intro Loop.equality) simp_all
    with Cons.IH [OF b Cons.prems(2,3)] show ?thesis by (simp add: c)
  qed
qed

lemma loops_renamed:
  "list_all2 (\<lambda>l l'. l' = l\<lparr>loop_id := loop_id l'\<rparr>) ls ls' \<Longrightarrow>
   map loop_id ls' = map \<rho> (map loop_id ls) \<Longrightarrow> ls' = map (rename_loop \<rho>) ls"
  by (induction rule: list_all2_induct) (simp_all add: rename_loop_def)

lemma nests_shape:
  "map (\<lambda>e. (fst e, nest_body (loops (snd e)) (stmts (snd e)))) ns'
   = map (\<lambda>e. (fst e, nest_body (loops (snd e)) (stmts (snd e)))) ns \<Longrightarrow>
   list_all (\<lambda>e. loops_complete (stmts (snd e))) ns \<Longrightarrow>
   list_all (\<lambda>e. loops_complete (stmts (snd e))) ns' \<Longrightarrow>
   list_all2 (\<lambda>e e'. fst e' = fst e \<and> stmts (snd e') = stmts (snd e)
                \<and> list_all2 (\<lambda>l l'. l' = l\<lparr>loop_id := loop_id l'\<rparr>) (loops (snd e)) (loops (snd e')))
     ns ns'"
proof (induction ns arbitrary: ns')
  case Nil
  then show ?case by simp
next
  case (Cons e ns)
  from Cons.prems(1) obtain e' r' where c: "ns' = e' # r'" by (cases ns') auto
  from Cons.prems(1) have n: "fst e' = fst e"
    and b: "nest_body (loops (snd e)) (stmts (snd e)) = nest_body (loops (snd e')) (stmts (snd e'))"
    and r: "map (\<lambda>e. (fst e, nest_body (loops (snd e)) (stmts (snd e)))) r'
            = map (\<lambda>e. (fst e, nest_body (loops (snd e)) (stmts (snd e)))) ns"
    by (simp_all add: c)
  from Cons.prems(2,3) have k: "loops_complete (stmts (snd e))" "loops_complete (stmts (snd e'))"
    and k': "list_all (\<lambda>e. loops_complete (stmts (snd e))) ns"
            "list_all (\<lambda>e. loops_complete (stmts (snd e))) r'"
    by (simp_all add: c)
  from nest_body_inj [OF b k] Cons.IH [OF r k'] n show ?case by (simp add: c)
qed

lemma shape_length:
  "list_all2 (\<lambda>e e'. fst e' = fst e \<and> stmts (snd e') = stmts (snd e)
                \<and> list_all2 (\<lambda>l l'. l' = l\<lparr>loop_id := loop_id l'\<rparr>) (loops (snd e)) (loops (snd e')))
     ns ns' \<Longrightarrow>
   length (concat (map (\<lambda>e. map loop_id (loops (snd e))) ns'))
   = length (concat (map (\<lambda>e. map loop_id (loops (snd e))) ns))"
  by (induction rule: list_all2_induct) (auto dest: list_all2_lengthD)

lemma shape_renamed:
  "list_all2 (\<lambda>e e'. fst e' = fst e \<and> stmts (snd e') = stmts (snd e)
                \<and> list_all2 (\<lambda>l l'. l' = l\<lparr>loop_id := loop_id l'\<rparr>) (loops (snd e)) (loops (snd e')))
     ns ns' \<Longrightarrow>
   concat (map (\<lambda>e. map loop_id (loops (snd e))) ns')
   = map \<rho> (concat (map (\<lambda>e. map loop_id (loops (snd e))) ns)) \<Longrightarrow>
   ns' = rename_nests \<rho> ns"
proof (induction rule: list_all2_induct)
  case Nil
  then show ?case by (simp add: rename_nests_def)
next
  case (Cons e ns e' ns')
  from Cons.hyps(1) have n: "fst e' = fst e" and s: "stmts (snd e') = stmts (snd e)"
    and l: "list_all2 (\<lambda>l l'. l' = l\<lparr>loop_id := loop_id l'\<rparr>) (loops (snd e)) (loops (snd e'))"
    by simp_all
  from l have len: "length (map loop_id (loops (snd e'))) = length (map \<rho> (map loop_id (loops (snd e))))"
    by (simp add: list_all2_lengthD)
  from Cons.prems have ap:
    "map loop_id (loops (snd e')) @ concat (map (\<lambda>e. map loop_id (loops (snd e))) ns')
     = map \<rho> (map loop_id (loops (snd e))) @ map \<rho> (concat (map (\<lambda>e. map loop_id (loops (snd e))) ns))"
    by simp
  from ap [unfolded append_eq_append_conv [OF disjI1 [OF len]]] have a: "map loop_id (loops (snd e')) = map \<rho> (map loop_id (loops (snd e)))"
    and b: "concat (map (\<lambda>e. map loop_id (loops (snd e))) ns')
            = map \<rho> (concat (map (\<lambda>e. map loop_id (loops (snd e))) ns))"
    by simp_all
  from loops_renamed [OF l a] s have "snd e' = rename_nest \<rho> (snd e)"
    by (intro LoopNest.equality) (simp_all add: rename_nest_def)
  with n have "e' = (fst e, rename_nest \<rho> (snd e))" by (simp add: prod_eq_iff)
  with Cons.IH [OF b] show ?case by (simp add: rename_nests_def)
qed

lemma structurally_equal_fresh_copy:
  assumes eq: "module_exprs s' = module_exprs s" and wf: "wf_schedule s" and wf': "wf_schedule s'"
  shows "\<exists>\<rho>. fresh_copy \<rho> s s'"
proof -
  from wf have d: "distinct (loop_ids s)" and lt: "list_all (\<lambda>i. i < next_id s) (loop_ids s)"
    and k: "list_all (\<lambda>e. loops_complete (stmts (snd e))) (nests s)"
    by (simp_all add: wf_schedule_def)
  from wf' have d': "distinct (loop_ids s')" and lt': "list_all (\<lambda>i. i < next_id s') (loop_ids s')"
    and k': "list_all (\<lambda>e. loops_complete (stmts (snd e))) (nests s')"
    by (simp_all add: wf_schedule_def)
  have sh: "list_all2 (\<lambda>e e'. fst e' = fst e \<and> stmts (snd e') = stmts (snd e)
                \<and> list_all2 (\<lambda>l l'. l' = l\<lparr>loop_id := loop_id l'\<rparr>) (loops (snd e)) (loops (snd e')))
             (nests s) (nests s')"
    by (rule nests_shape [OF _ k k']) (use eq in \<open>simp add: module_exprs_def\<close>)
  have len: "length (loop_ids s') = length (loop_ids s)"
    unfolding loop_ids_def by (rule shape_length [OF sh])
  define \<rho> where "\<rho> i = (case map_of (zip (loop_ids s) (loop_ids s')) i of Some j \<Rightarrow> j | None \<Rightarrow> 0)" for i
  have ids: "loop_ids s' = map \<rho> (loop_ids s)"
  proof (rule nth_equalityI)
    show "length (loop_ids s') = length (map \<rho> (loop_ids s))" using len by simp
  next
    fix i
    assume i: "i < length (loop_ids s')"
    from map_of_zip_nth [OF len [symmetric] d i]
    show "loop_ids s' ! i = map \<rho> (loop_ids s) ! i"
      using i len by (simp add: \<rho>_def)
  qed
  have n: "nests s' = rename_nests \<rho> (nests s)"
    by (rule shape_renamed [OF sh]) (use ids in \<open>simp add: loop_ids_def\<close>)
  have inj: "inj_on \<rho> (set (loop_ids s))"
    using d' d unfolding ids by (simp add: distinct_map)
  have b: "list_all (\<lambda>i. i < next_id s \<and> \<rho> i < next_id s') (loop_ids s)"
    using lt lt' unfolding ids by (simp add: list_all_iff)
  from n inj b have "fresh_copy \<rho> s s'" by (simp add: fresh_copy_def)
  then show ?thesis by blast
qed

text \<open>
  Claim C1 (replay determinism). Let the descriptor \<open>desc\<close> be recorded against the
  IR of the schedule object \<open>sch\<close> by the calls \<open>ops\<close>, each applied to the schedule
  and appended to the descriptor, and let \<open>recorded\<close> be the schedule these calls
  have made. Let
  \<open>fresh\<close> be any schedule object whose IR is structurally equal to the IR of \<open>sch\<close>,
  whatever its handles. Then \<open>Replay desc fresh\<close> returns, and the IR it leaves is
  the IR of \<open>recorded\<close>, as expressions; so whatever code generator \<open>codegen\<close>
  reads the IR emits the same text for both.
\<close>

theorem replay_determinism:
  assumes "Record ops sch = Inr (desc, recorded)"
    and "wf_schedule sch" and "wf_schedule fresh"
    and "module_exprs fresh = module_exprs sch"
  shows "map_sum id (\<lambda>r. module_exprs (snd r)) (Replay desc fresh) = Inr (module_exprs recorded)
    \<and> map_sum id (\<lambda>r. codegen (module_exprs (snd r))) (Replay desc fresh)
        = Inr (codegen (module_exprs recorded))"
proof -
  from Record_Replay [OF assms(1)] obtain hs where r: "Replay desc sch = Inr (hs, recorded)" ..
  from structurally_equal_fresh_copy [OF assms(4,2,3)] obtain \<rho> where f: "fresh_copy \<rho> sch fresh" ..
  from fresh_copy_Replay [OF f r] obtain hs' t'
    where "Replay desc fresh = Inr (hs', t')" "module_exprs t' = module_exprs recorded"
    by blast
  then show ?thesis by simp
qed

theorem replay_determinism_witness:
  "Record example_ops example_ir = Inr (example_desc, example_recorded)
   \<and> wf_schedule example_ir \<and> wf_schedule example_fresh_ir
   \<and> module_exprs example_fresh_ir = module_exprs example_ir
   \<and> map_sum id (\<lambda>r. module_exprs (snd r)) (Replay example_desc example_fresh_ir)
       = Inr [(''B'', [For Serial None \<lparr>name = ''i_j_fused_s'', is_reduce_axis = False\<rparr> 256
                        (Block [For Serial None \<lparr>name = ''i_j_fused_ss'', is_reduce_axis = False\<rparr> 4
                                  (Block [elementwise_block])])])]"
proof -
  have m: "module_exprs example_recorded
           = [(''B'', [For Serial None \<lparr>name = ''i_j_fused_s'', is_reduce_axis = False\<rparr> 256
                        (Block [For Serial None \<lparr>name = ''i_j_fused_ss'', is_reduce_axis = False\<rparr> 4
                                  (Block [elementwise_block])])])]"
    by (simp add: module_exprs_def example_recorded_def example_loop_def)
  have r: "Record example_ops example_ir = Inr (example_desc, example_recorded)"
    by (simp add: Record_def example_ops_def example_ir_def example_desc_def example_recorded_def
        Append_def fresh_names_def expr_name_def lift_fault_def GetBlock_def GetLoops_def Fuse_def
        Split_def infer_factors_def split_loops_def set_nest_def Let_def fused_var_def split_var_def
        two_loops_def example_loop_def upt_rec eval_nat_numeral)
  have w: "wf_schedule example_ir"
    by (simp add: wf_schedule_def loop_ids_def loops_complete_def example_ir_def two_loops_def
        example_loop_def elementwise_block_def)
  have w': "wf_schedule example_fresh_ir"
    by (simp add: wf_schedule_def loop_ids_def loops_complete_def example_fresh_ir_def
        example_loop_def elementwise_block_def)
  have e: "module_exprs example_fresh_ir = module_exprs example_ir"
    by (simp add: module_exprs_def example_fresh_ir_def example_ir_def two_loops_def example_loop_def)
  from replay_determinism [OF r w w' e, THEN conjunct1]
  show ?thesis
    unfolding m using r w w' e by simp
qed


end
